theory Spec2Isabelle
  imports Main
begin

section \<open>Go strings and the library functions the clipboard managers call\<close>

text \<open>
  A Go \<^verbatim>\<open>string\<close> is a sequence of bytes; \<^typ>\<open>char\<close> is a byte, so a Go string is a
  \<^typ>\<open>string\<close>. A \<^verbatim>\<open>rune\<close> is a code point; every rune that the functions below
  produce is non-negative, so runes are natural numbers.
\<close>

type_synonym rune = nat

definition RuneError :: rune where
  "RuneError = 0xFFFD"

definition RuneSelf :: nat where
  "RuneSelf = 0x80"

subsection \<open>unicode/utf8\<close>

text \<open>
  The table \<^verbatim>\<open>first\<close> of unicode/utf8 classifies a leading byte: ASCII, invalid, or the
  start of a sequence of \<open>sz\<close> bytes whose second byte lies in the accept range \<open>lo..hi\<close>.
\<close>

datatype first_info = AS | XX | SZ nat nat nat

definition first :: "nat \<Rightarrow> first_info" where
  "first b =
     (if b < 0x80 then AS
      else if b < 0xC2 then XX
      else if b < 0xE0 then SZ 2 0x80 0xBF
      else if b = 0xE0 then SZ 3 0xA0 0xBF
      else if b < 0xED then SZ 3 0x80 0xBF
      else if b = 0xED then SZ 3 0x80 0x9F
      else if b < 0xF0 then SZ 3 0x80 0xBF
      else if b = 0xF0 then SZ 4 0x90 0xBF
      else if b < 0xF4 then SZ 4 0x80 0xBF
      else if b = 0xF4 then SZ 4 0x80 0x8F
      else XX)"

definition locb :: nat where "locb = 0x80"
definition hicb :: nat where "hicb = 0xBF"

text \<open>
  \<^verbatim>\<open>utf8.DecodeRune\<close> (and \<^verbatim>\<open>DecodeRuneInString\<close>): the first rune of \<open>p\<close> and its width
  in bytes; \<open>(RuneError, 0)\<close> on the empty string, \<open>(RuneError, 1)\<close> on an invalid
  encoding. The masks and shifts of the Go code are written as \<open>mod\<close> and \<open>*\<close>:
  \<open>p0 & mask2 << 6 | b1 & maskx\<close> is \<open>(p0 mod 32) * 64 + b1 mod 64\<close>.
\<close>

fun DecodeRune :: "string \<Rightarrow> rune \<times> nat" where
  "DecodeRune [] = (RuneError, 0)"
| "DecodeRune (c0 # p) =
     (let p0 = of_char c0 in
      case first p0 of
        AS \<Rightarrow> (p0, 1)
      | XX \<Rightarrow> (RuneError, 1)
      | SZ sz lo hi \<Rightarrow>
          if length (c0 # p) < sz then (RuneError, 1)
          else
            let b1 = of_char (p ! 0) in
            if b1 < lo \<or> hi < b1 then (RuneError, 1)
            else if sz \<le> 2 then ((p0 mod 32) * 64 + b1 mod 64, 2)
            else
              let b2 = of_char (p ! 1) in
              if b2 < locb \<or> hicb < b2 then (RuneError, 1)
              else if sz \<le> 3 then ((p0 mod 16) * 4096 + (b1 mod 64) * 64 + b2 mod 64, 3)
              else
                let b3 = of_char (p ! 2) in
                if b3 < locb \<or> hicb < b3 then (RuneError, 1)
                else ((p0 mod 8) * 262144 + (b1 mod 64) * 4096 + (b2 mod 64) * 64
                        + b3 mod 64, 4))"

text \<open>\<^verbatim>\<open>utf8.RuneStart\<close>: the byte is not a continuation byte.\<close>

definition RuneStart :: "char \<Rightarrow> bool" where
  "RuneStart b = ((of_char b :: nat) div 64 \<noteq> 2)"

text \<open>
  The loop of \<^verbatim>\<open>utf8.DecodeLastRune\<close> that walks back from \<open>start\<close> to the limit
  \<open>lim\<close> until it meets the start of a rune. \<open>None\<close> is the Go index \<open>lim - 1\<close>, which
  the caller replaces by \<open>lim\<close>.
\<close>

fun lastRuneStart :: "string \<Rightarrow> nat \<Rightarrow> nat \<Rightarrow> nat option" where
  "lastRuneStart p lim 0 = (if lim = 0 \<and> p \<noteq> [] \<and> RuneStart (p ! 0) then Some 0 else None)"
| "lastRuneStart p lim (Suc n) =
     (if Suc n < lim then None
      else if RuneStart (p ! Suc n) then Some (Suc n)
      else lastRuneStart p lim n)"

definition UTFMax :: nat where "UTFMax = 4"

text \<open>
  \<^verbatim>\<open>utf8.DecodeLastRune\<close>: the last rune of \<open>p\<close> and its width.
\<close>

definition DecodeLastRune :: "string \<Rightarrow> rune \<times> nat" where
  "DecodeLastRune p =
     (let n = length p in
      if n = 0 then (RuneError, 0)
      else
        let start = n - 1; r = of_char (p ! start) in
        if r < RuneSelf then (r, 1)
        else
          let lim = (if n < UTFMax then 0 else n - UTFMax);
              start' = (if start = 0 then lim
                        else case lastRuneStart p lim (start - 1) of
                               None \<Rightarrow> lim | Some k \<Rightarrow> k);
              (r', w) = DecodeRune (drop start' p)
          in if start' + w \<noteq> n then (RuneError, 1) else (r', w))"

text \<open>
  \<^verbatim>\<open>utf8.EncodeRune\<close>, returning the bytes written. Surrogates and values beyond
  \<open>MaxRune\<close> are encoded as \<open>RuneError\<close>.
\<close>

definition EncodeRune :: "rune \<Rightarrow> string" where
  "EncodeRune r =
     (if r \<le> 0x7F then [char_of r]
      else if r \<le> 0x7FF then [char_of (0xC0 + r div 64), char_of (0x80 + r mod 64)]
      else if r > 0x10FFFF \<or> (0xD800 \<le> r \<and> r \<le> 0xDFFF) then
        [char_of (0xEF::nat), char_of (0xBF::nat), char_of (0xBD::nat)]
      else if r \<le> 0xFFFF then
        [char_of (0xE0 + r div 4096), char_of (0x80 + (r div 64) mod 64),
         char_of (0x80 + r mod 64)]
      else
        [char_of (0xF0 + r div 262144), char_of (0x80 + (r div 4096) mod 64),
         char_of (0x80 + (r div 64) mod 64), char_of (0x80 + r mod 64)])"

text \<open>The conversion \<^verbatim>\<open>string(rs)\<close> of a slice of runes: their encodings, concatenated.\<close>

definition string_of_runes :: "rune list \<Rightarrow> string" where
  "string_of_runes rs = concat (map EncodeRune rs)"

subsection \<open>unicode.IsSpace and strings.TrimSpace\<close>

text \<open>
  \<^verbatim>\<open>unicode.IsSpace\<close>: the Latin-1 switch, then the \<^verbatim>\<open>White_Space\<close> range table.
\<close>

definition IsSpace :: "rune \<Rightarrow> bool" where
  "IsSpace r =
     (if r \<le> 0xFF then r \<in> {0x09, 0x0A, 0x0B, 0x0C, 0x0D, 0x20, 0x85, 0xA0}
      else r = 0x1680 \<or> (0x2000 \<le> r \<and> r \<le> 0x200A) \<or> r = 0x2028 \<or> r = 0x2029
           \<or> r = 0x202F \<or> r = 0x205F \<or> r = 0x3000)"

lemma DecodeRune_size_pos: "s \<noteq> [] \<Longrightarrow> DecodeRune s = (r, n) \<Longrightarrow> 0 < n"
  by (cases s) (auto simp: Let_def split: first_info.splits if_splits)

lemma DecodeRune_size_le: "DecodeRune s = (r, n) \<Longrightarrow> n \<le> length s"
  by (cases s) (auto simp: Let_def first_def Suc_le_eq split: first_info.splits if_splits)

text \<open>
  \<^verbatim>\<open>strings.TrimLeftFunc(s, f)\<close>: \<^verbatim>\<open>indexFunc\<close> ranges over the runes of \<open>s\<close> to the
  first one that does not satisfy \<open>f\<close>, and the result is the string from there.
\<close>

function TrimLeftFunc :: "(rune \<Rightarrow> bool) \<Rightarrow> string \<Rightarrow> string" where
  "TrimLeftFunc f s =
     (if s = [] then []
      else let (r, w) = DecodeRune s in if f r then TrimLeftFunc f (drop w s) else s)"
  by pat_completeness auto
termination
  apply (relation "measure (\<lambda>(f, s). length s)")
   apply simp
  subgoal for f s x r w
    using DecodeRune_size_pos [of s r w] by (cases s) auto
  done

declare TrimLeftFunc.simps [simp del]

lemma lastRuneStart_le: "lastRuneStart p lim m = Some k \<Longrightarrow> k \<le> m"
  by (induction m) (auto split: if_splits)

lemma DecodeLastRune_size_pos:
  assumes "p \<noteq> []" and "DecodeLastRune p = (r, w)"
  shows "0 < w \<and> w \<le> length p"
proof -
  have n: "0 < length p" "Suc 0 \<le> length p"
    using assms(1) by (cases p; simp)+
  show ?thesis
    using assms(2) n
    by (auto simp: DecodeLastRune_def Let_def UTFMax_def
        split: if_splits prod.splits option.splits dest!: lastRuneStart_le)
qed

text \<open>
  \<^verbatim>\<open>lastIndexFunc(s, f, truth)\<close>: the loop \<^verbatim>\<open>for i := len(s); i > 0;\<close> decodes the last rune
  of \<^verbatim>\<open>s[0:i]\<close>; the argument \<open>p\<close> is that prefix, so \<open>i = length p\<close>. \<open>None\<close> is the
  result \<open>-1\<close>.
\<close>

function lastIndexFunc :: "string \<Rightarrow> (rune \<Rightarrow> bool) \<Rightarrow> bool \<Rightarrow> nat option" where
  "lastIndexFunc p f truth =
     (if p = [] then None
      else let (r, w) = DecodeLastRune p; i = length p - w in
           if f r = truth then Some i else lastIndexFunc (take i p) f truth)"
  by pat_completeness auto
termination
  apply (relation "measure (\<lambda>(p, f, truth). length p)")
   apply simp
  subgoal for p f truth x r w
    using DecodeLastRune_size_pos [of p r w] by (cases p) auto
  done

declare lastIndexFunc.simps [simp del]

text \<open>\<^verbatim>\<open>strings.TrimRightFunc(s, f)\<close>.\<close>

definition TrimRightFunc :: "string \<Rightarrow> (rune \<Rightarrow> bool) \<Rightarrow> string" where
  "TrimRightFunc s f =
     (case lastIndexFunc s f False of
        None \<Rightarrow> take 0 s
      | Some i \<Rightarrow>
          if (of_char (s ! i) :: nat) \<ge> RuneSelf
          then let (r, wid) = DecodeRune (drop i s) in take (i + wid) s
          else take (i + 1) s)"

text \<open>\<^verbatim>\<open>strings.TrimFunc(s, f)\<close> is \<^verbatim>\<open>TrimRightFunc(TrimLeftFunc(s, f), f)\<close>.\<close>

definition TrimFunc :: "string \<Rightarrow> (rune \<Rightarrow> bool) \<Rightarrow> string" where
  "TrimFunc s f = TrimRightFunc (TrimLeftFunc f s) f"

text \<open>The table \<^verbatim>\<open>asciiSpace\<close> of package strings.\<close>

definition asciiSpace :: "char \<Rightarrow> bool" where
  "asciiSpace c = ((of_char c :: nat) \<in> {0x09, 0x0A, 0x0B, 0x0C, 0x0D, 0x20})"

text \<open>
  \<^verbatim>\<open>strings.TrimSpace\<close>. Its first loop skips leading ASCII spaces and falls back to
  \<^verbatim>\<open>TrimFunc(s[start:], unicode.IsSpace)\<close> at a non-ASCII byte (\<open>Inl\<close>: the function has
  returned); otherwise it stops with \<^verbatim>\<open>s[start:]\<close> (\<open>Inr\<close>).
\<close>

fun TrimSpace_start :: "string \<Rightarrow> string + string" where
  "TrimSpace_start [] = Inr []"
| "TrimSpace_start (c # cs) =
     (if (of_char c :: nat) \<ge> RuneSelf then Inl (TrimFunc (c # cs) IsSpace)
      else if asciiSpace c then TrimSpace_start cs
      else Inr (c # cs))"

text \<open>
  The second loop walks back from the end of \<^verbatim>\<open>s[start:stop]\<close>, which is the argument.
\<close>

function TrimSpace_stop :: "string \<Rightarrow> string" where
  "TrimSpace_stop p =
     (if p = [] then []
      else if (of_char (last p) :: nat) \<ge> RuneSelf then TrimRightFunc p IsSpace
      else if asciiSpace (last p) then TrimSpace_stop (butlast p)
      else p)"
  by pat_completeness auto
termination
  by (relation "measure length") (auto simp: length_greater_0_conv [symmetric] simp del: length_greater_0_conv)

declare TrimSpace_stop.simps [simp del]

definition TrimSpace :: "string \<Rightarrow> string" where
  "TrimSpace s = (case TrimSpace_start s of Inl t \<Rightarrow> t | Inr t \<Rightarrow> TrimSpace_stop t)"

subsection \<open>encoding/json: Marshal of a slice of strings\<close>

text \<open>
  A value of type \<^verbatim>\<open>[]string\<close>, as far as its contents go: the nil slice, or a slice
  with a sequence of elements. Backing arrays and aliasing are modelled separately below.
\<close>

datatype string_slice = NilSlice | Slice "string list"

fun elems :: "string_slice \<Rightarrow> string list" where
  "elems NilSlice = []"
| "elems (Slice xs) = xs"

definition hex :: "nat \<Rightarrow> char" where
  "hex n = ''0123456789abcdef'' ! n"

text \<open>
  \<^verbatim>\<open>htmlSafeSet\<close>: the ASCII bytes that \<^verbatim>\<open>appendString\<close> copies unescaped when
  \<^verbatim>\<open>escapeHTML\<close> is set, as it is in \<^verbatim>\<open>json.Marshal\<close>: 0x20 to 0x7F without
  the double quote, the ampersand, the angle brackets and the backslash.
\<close>

definition htmlSafeSet :: "nat \<Rightarrow> bool" where
  "htmlSafeSet b = (0x20 \<le> b \<and> b < 0x80 \<and> b \<notin> {0x22, 0x26, 0x3C, 0x3E, 0x5C})"

text \<open>The \<^verbatim>\<open>switch b\<close> of \<^verbatim>\<open>appendString\<close> for an ASCII byte outside the safe set.\<close>

definition escapeByte :: "char \<Rightarrow> string" where
  "escapeByte c =
     (let b = (of_char c :: nat) in
      if b = 0x5C \<or> b = 0x22 then [CHR 0x5C, c]
      else if b = 0x08 then [CHR 0x5C, CHR ''b'']
      else if b = 0x0C then [CHR 0x5C, CHR ''f'']
      else if b = 0x0A then [CHR 0x5C, CHR ''n'']
      else if b = 0x0D then [CHR 0x5C, CHR ''r'']
      else if b = 0x09 then [CHR 0x5C, CHR ''t'']
      else [CHR 0x5C, CHR ''u'', CHR ''0'', CHR ''0'', hex (b div 16), hex (b mod 16)])"

text \<open>
  The loop of \<^verbatim>\<open>appendString\<close> over the bytes of \<open>src\<close>: safe ASCII is copied, other
  ASCII escaped, a byte that is not the start of a valid UTF-8 sequence becomes
  the six bytes of the escape of U+FFFD, U+2028 and U+2029 are escaped, every other rune is copied.
\<close>

function appendString_loop :: "string \<Rightarrow> string" where
  "appendString_loop src =
     (if src = [] then []
      else
        let b = (of_char (hd src) :: nat) in
        if b < RuneSelf then
          (if htmlSafeSet b then [hd src] else escapeByte (hd src)) @ appendString_loop (tl src)
        else
          let (c, w) = DecodeRune (take UTFMax src) in
          if c = RuneError \<and> w = 1 then
            [CHR 0x5C, CHR ''u'', CHR ''f'', CHR ''f'', CHR ''f'', CHR ''d'']
              @ appendString_loop (drop w src)
          else if c = 0x2028 \<or> c = 0x2029 then
            [CHR 0x5C, CHR ''u'', CHR ''2'', CHR ''0'', CHR ''2'', hex (c mod 16)]
              @ appendString_loop (drop w src)
          else take w src @ appendString_loop (drop w src))"
  by pat_completeness auto
termination
  apply (relation "measure length")
     apply simp
    apply (case_tac src; simp)
  subgoal for src b x c w
    using DecodeRune_size_pos [of "take UTFMax src" c w]
    by (cases src) (auto simp: UTFMax_def)
  subgoal for src b x c w
    using DecodeRune_size_pos [of "take UTFMax src" c w]
    by (cases src) (auto simp: UTFMax_def)
  subgoal for src b x c w
    using DecodeRune_size_pos [of "take UTFMax src" c w]
    by (cases src) (auto simp: UTFMax_def)
  done

declare appendString_loop.simps [simp del]

definition appendString :: "string \<Rightarrow> string" where
  "appendString src = CHR 0x22 # appendString_loop src @ [CHR 0x22]"

text \<open>The array encoder: the elements separated by commas, between brackets.\<close>

fun encodeElems :: "string list \<Rightarrow> string" where
  "encodeElems [] = []"
| "encodeElems [x] = appendString x"
| "encodeElems (x # y # ys) = appendString x @ CHR '','' # encodeElems (y # ys)"

datatype go_error = MarshalError | SyntaxError | UnmarshalTypeError | PathError

datatype go_panic = SliceBoundsOutOfRange | JsonPhasePanic

text \<open>
  \<^verbatim>\<open>json.Marshal(v)\<close> for \<open>v\<close> of type \<^verbatim>\<open>[]string\<close>: a nil slice is \<^verbatim>\<open>null\<close>. No
  value of this type makes it return an error.
\<close>

fun json_Marshal :: "string_slice \<Rightarrow> go_error + string" where
  "json_Marshal NilSlice = Inr ''null''"
| "json_Marshal (Slice xs) = Inr (CHR ''['' # encodeElems xs @ [CHR '']''])"

subsection \<open>encoding/json: the scanner\<close>

text \<open>
  \<^verbatim>\<open>json.Unmarshal\<close> first runs \<^verbatim>\<open>checkValid\<close>, which feeds the bytes to the scanner of
  scanner.go: a state machine whose state is the step function to apply to the next
  byte, with a stack of the enclosing arrays and objects.
\<close>

datatype scan_step =
    BeginValueOrEmpty | BeginValue | BeginStringOrEmpty | BeginString
  | EndValue | EndTop
  | InString | InStringEsc | InStringEscU | InStringEscU1 | InStringEscU12 | InStringEscU123
  | Neg | St1 | St0 | Dot | Dot0 | StE | ESign | E0
  | StT | Tr | Tru | StF | Fa | Fal | Fals | StN | Nu | Nul
  | StError

datatype parse_state = ParseObjectKey | ParseObjectValue | ParseArrayValue

record scanner =
  step :: scan_step
  parseState :: "parse_state list"
  scanErr :: bool
  endTop :: bool

definition scanner_reset :: scanner where
  "scanner_reset = \<lparr>step = BeginValue, parseState = [], scanErr = False, endTop = False\<rparr>"

definition maxNestingDepth :: nat where
  "maxNestingDepth = 10000"

definition json_isSpace :: "char \<Rightarrow> bool" where
  "json_isSpace c = (c = CHR '' '' \<or> c = CHR 0x09 \<or> c = CHR 0x0D \<or> c = CHR 0x0A)"

definition scan_error :: "scanner \<Rightarrow> scanner" where
  "scan_error s = s\<lparr>step := StError, scanErr := True\<rparr>"

definition pushParseState :: "scanner \<Rightarrow> parse_state \<Rightarrow> scanner" where
  "pushParseState s newParseState =
     (let s' = s\<lparr>parseState := newParseState # parseState s\<rparr> in
      if length (parseState s') \<le> maxNestingDepth then s' else scan_error s')"

definition popParseState :: "scanner \<Rightarrow> scanner" where
  "popParseState s =
     (let s' = s\<lparr>parseState := tl (parseState s)\<rparr> in
      if parseState s' = [] then s'\<lparr>step := EndTop, endTop := True\<rparr>
      else s'\<lparr>step := EndValue\<rparr>)"

definition stateEndTop :: "scanner \<Rightarrow> char \<Rightarrow> scanner" where
  "stateEndTop s c = (if \<not> json_isSpace c then scan_error s else s)"

definition stateEndValue :: "scanner \<Rightarrow> char \<Rightarrow> scanner" where
  "stateEndValue s c =
     (case parseState s of
        [] \<Rightarrow> stateEndTop (s\<lparr>step := EndTop, endTop := True\<rparr>) c
      | ps # rest \<Rightarrow>
          if json_isSpace c then s\<lparr>step := EndValue\<rparr>
          else (case ps of
              ParseObjectKey \<Rightarrow>
                if c = CHR '':'' then s\<lparr>parseState := ParseObjectValue # rest, step := BeginValue\<rparr>
                else scan_error s
            | ParseObjectValue \<Rightarrow>
                if c = CHR '','' then s\<lparr>parseState := ParseObjectKey # rest, step := BeginString\<rparr>
                else if c = CHR ''}'' then popParseState s
                else scan_error s
            | ParseArrayValue \<Rightarrow>
                if c = CHR '','' then s\<lparr>step := BeginValue\<rparr>
                else if c = CHR '']'' then popParseState s
                else scan_error s))"

definition stateBeginValue :: "scanner \<Rightarrow> char \<Rightarrow> scanner" where
  "stateBeginValue s c =
     (if json_isSpace c then s
      else if c = CHR ''{'' then pushParseState (s\<lparr>step := BeginStringOrEmpty\<rparr>) ParseObjectKey
      else if c = CHR ''['' then pushParseState (s\<lparr>step := BeginValueOrEmpty\<rparr>) ParseArrayValue
      else if c = CHR 0x22 then s\<lparr>step := InString\<rparr>
      else if c = CHR ''-'' then s\<lparr>step := Neg\<rparr>
      else if c = CHR ''0'' then s\<lparr>step := St0\<rparr>
      else if c = CHR ''t'' then s\<lparr>step := StT\<rparr>
      else if c = CHR ''f'' then s\<lparr>step := StF\<rparr>
      else if c = CHR ''n'' then s\<lparr>step := StN\<rparr>
      else if (0x31 \<le> (of_char c :: nat) \<and> (of_char c :: nat) \<le> 0x39) then s\<lparr>step := St1\<rparr>
      else scan_error s)"

definition stateBeginValueOrEmpty :: "scanner \<Rightarrow> char \<Rightarrow> scanner" where
  "stateBeginValueOrEmpty s c =
     (if json_isSpace c then s
      else if c = CHR '']'' then stateEndValue s c
      else stateBeginValue s c)"

definition stateBeginString :: "scanner \<Rightarrow> char \<Rightarrow> scanner" where
  "stateBeginString s c =
     (if json_isSpace c then s
      else if c = CHR 0x22 then s\<lparr>step := InString\<rparr>
      else scan_error s)"

definition stateBeginStringOrEmpty :: "scanner \<Rightarrow> char \<Rightarrow> scanner" where
  "stateBeginStringOrEmpty s c =
     (if json_isSpace c then s
      else if c = CHR ''}'' then
        stateEndValue (s\<lparr>parseState := ParseObjectValue # tl (parseState s)\<rparr>) c
      else stateBeginString s c)"

definition isHexDigit :: "char \<Rightarrow> bool" where
  "isHexDigit c =
     (let b = (of_char c :: nat) in
      (0x30 \<le> b \<and> b \<le> 0x39) \<or> (0x61 \<le> b \<and> b \<le> 0x66) \<or> (0x41 \<le> b \<and> b \<le> 0x46))"

definition isDigit :: "char \<Rightarrow> bool" where
  "isDigit c = (0x30 \<le> (of_char c :: nat) \<and> (of_char c :: nat) \<le> 0x39)"

definition state0 :: "scanner \<Rightarrow> char \<Rightarrow> scanner" where
  "state0 s c =
     (if c = CHR ''.'' then s\<lparr>step := Dot\<rparr>
      else if c = CHR ''e'' \<or> c = CHR ''E'' then s\<lparr>step := StE\<rparr>
      else stateEndValue s c)"

definition stateESign :: "scanner \<Rightarrow> char \<Rightarrow> scanner" where
  "stateESign s c = (if isDigit c then s\<lparr>step := E0\<rparr> else scan_error s)"

definition expect :: "scanner \<Rightarrow> char \<Rightarrow> char \<Rightarrow> scan_step \<Rightarrow> scanner" where
  "expect s c wanted next = (if c = wanted then s\<lparr>step := next\<rparr> else scan_error s)"

definition scanner_step :: "scanner \<Rightarrow> char \<Rightarrow> scanner" where
  "scanner_step s c =
     (case step s of
        BeginValueOrEmpty \<Rightarrow> stateBeginValueOrEmpty s c
      | BeginValue \<Rightarrow> stateBeginValue s c
      | BeginStringOrEmpty \<Rightarrow> stateBeginStringOrEmpty s c
      | BeginString \<Rightarrow> stateBeginString s c
      | EndValue \<Rightarrow> stateEndValue s c
      | EndTop \<Rightarrow> stateEndTop s c
      | InString \<Rightarrow>
          if c = CHR 0x22 then s\<lparr>step := EndValue\<rparr>
          else if c = CHR 0x5C then s\<lparr>step := InStringEsc\<rparr>
          else if (of_char c :: nat) < 0x20 then scan_error s
          else s
      | InStringEsc \<Rightarrow>
          if c \<in> {CHR ''b'', CHR ''f'', CHR ''n'', CHR ''r'', CHR ''t'', CHR 0x5C, CHR ''/'', CHR 0x22}
          then s\<lparr>step := InString\<rparr>
          else if c = CHR ''u'' then s\<lparr>step := InStringEscU\<rparr>
          else scan_error s
      | InStringEscU \<Rightarrow> if isHexDigit c then s\<lparr>step := InStringEscU1\<rparr> else scan_error s
      | InStringEscU1 \<Rightarrow> if isHexDigit c then s\<lparr>step := InStringEscU12\<rparr> else scan_error s
      | InStringEscU12 \<Rightarrow> if isHexDigit c then s\<lparr>step := InStringEscU123\<rparr> else scan_error s
      | InStringEscU123 \<Rightarrow> if isHexDigit c then s\<lparr>step := InString\<rparr> else scan_error s
      | Neg \<Rightarrow>
          if c = CHR ''0'' then s\<lparr>step := St0\<rparr>
          else if (0x31 \<le> (of_char c :: nat) \<and> (of_char c :: nat) \<le> 0x39) then s\<lparr>step := St1\<rparr>
          else scan_error s
      | St1 \<Rightarrow> if isDigit c then s\<lparr>step := St1\<rparr> else state0 s c
      | St0 \<Rightarrow> state0 s c
      | Dot \<Rightarrow> if isDigit c then s\<lparr>step := Dot0\<rparr> else scan_error s
      | Dot0 \<Rightarrow>
          if isDigit c then s
          else if c = CHR ''e'' \<or> c = CHR ''E'' then s\<lparr>step := StE\<rparr>
          else stateEndValue s c
      | StE \<Rightarrow>
          if c = CHR ''+'' \<or> c = CHR ''-'' then s\<lparr>step := ESign\<rparr> else stateESign s c
      | ESign \<Rightarrow> stateESign s c
      | E0 \<Rightarrow> if isDigit c then s else stateEndValue s c
      | StT \<Rightarrow> expect s c (CHR ''r'') Tr
      | Tr \<Rightarrow> expect s c (CHR ''u'') Tru
      | Tru \<Rightarrow> expect s c (CHR ''e'') EndValue
      | StF \<Rightarrow> expect s c (CHR ''a'') Fa
      | Fa \<Rightarrow> expect s c (CHR ''l'') Fal
      | Fal \<Rightarrow> expect s c (CHR ''s'') Fals
      | Fals \<Rightarrow> expect s c (CHR ''e'') EndValue
      | StN \<Rightarrow> expect s c (CHR ''u'') Nu
      | Nu \<Rightarrow> expect s c (CHR ''l'') Nul
      | Nul \<Rightarrow> expect s c (CHR ''l'') EndValue
      | StError \<Rightarrow> s)"

text \<open>
  \<^verbatim>\<open>scanner.eof\<close> and \<^verbatim>\<open>checkValid\<close>: the input is valid when no byte made the scanner fail
  and the top-level value is complete at the end. The error state absorbs every further
  byte, so that stopping at the first error and reading on give the same answer.
\<close>

definition scanner_eof :: "scanner \<Rightarrow> bool" where
  "scanner_eof s =
     (if scanErr s then False
      else if endTop s then True
      else endTop (scanner_step s (CHR '' '')))"

definition checkValid :: "string \<Rightarrow> bool" where
  "checkValid data = scanner_eof (foldl scanner_step scanner_reset data)"

subsection \<open>encoding/json: unquoting a string literal\<close>

text \<open>
  \<^verbatim>\<open>getu4\<close> reads the four hexadecimal digits of a \<^verbatim>\<open>\\u\<close> escape; \<open>None\<close> is its result
  \<open>-1\<close>.
\<close>

definition hexDigitValue :: "char \<Rightarrow> nat option" where
  "hexDigitValue c =
     (let b = (of_char c :: nat) in
      if 0x30 \<le> b \<and> b \<le> 0x39 then Some (b - 0x30)
      else if 0x61 \<le> b \<and> b \<le> 0x66 then Some (b - 0x61 + 10)
      else if 0x41 \<le> b \<and> b \<le> 0x46 then Some (b - 0x41 + 10)
      else None)"

fun hexDigits :: "rune \<Rightarrow> string \<Rightarrow> rune option" where
  "hexDigits r [] = Some r"
| "hexDigits r (c # cs) =
     (case hexDigitValue c of None \<Rightarrow> None | Some v \<Rightarrow> hexDigits (r * 16 + v) cs)"

definition getu4 :: "string \<Rightarrow> rune option" where
  "getu4 s =
     (if length s < 6 \<or> s ! 0 \<noteq> CHR 0x5C \<or> s ! 1 \<noteq> CHR ''u'' then None
      else hexDigits 0 (take 4 (drop 2 s)))"

text \<open>
  \<^verbatim>\<open>utf16.IsSurrogate\<close> and \<^verbatim>\<open>utf16.DecodeRune\<close>, whose second argument may be the \<open>-1\<close>
  of \<^verbatim>\<open>getu4\<close>.
\<close>

definition utf16_IsSurrogate :: "rune \<Rightarrow> bool" where
  "utf16_IsSurrogate r = (0xD800 \<le> r \<and> r < 0xE000)"

definition utf16_DecodeRune :: "rune \<Rightarrow> rune option \<Rightarrow> rune" where
  "utf16_DecodeRune r1 r2o =
     (case r2o of
        None \<Rightarrow> RuneError
      | Some r2 \<Rightarrow>
          if 0xD800 \<le> r1 \<and> r1 < 0xDC00 \<and> 0xDC00 \<le> r2 \<and> r2 < 0xE000
          then (r1 - 0xD800) * 1024 + (r2 - 0xDC00) + 0x10000
          else RuneError)"

text \<open>
  The loop of \<^verbatim>\<open>unquoteBytes\<close> over the bytes between the quotes: escapes are decoded,
  a surrogate pair becomes one rune, a surrogate without its partner and a byte that is
  not valid UTF-8 become U+FFFD. \<open>None\<close> is the result \<open>ok = false\<close>.
\<close>

lemma drop_DecodeRune_shorter:
  assumes "s \<noteq> []" and "(r, w) = DecodeRune s"
  shows "length s - w < length s"
proof -
  from assms have "0 < w" using DecodeRune_size_pos [of s r w] by simp
  moreover from assms(1) have "0 < length s" by simp
  ultimately show ?thesis by simp
qed

definition emit :: "string \<Rightarrow> string option \<Rightarrow> string option" where
  "emit bs rest = map_option ((@) bs) rest"

function unquote_loop :: "string \<Rightarrow> string option" where
  "unquote_loop s =
     (if s = [] then Some []
      else
        let c = hd s in
        if c = CHR 0x5C then
          (if tl s = [] then None
           else
             let e = hd (tl s) in
             if e = CHR 0x22 \<or> e = CHR 0x5C \<or> e = CHR ''/'' \<or> e = CHR 0x27
             then emit [e] (unquote_loop (drop 2 s))
             else if e = CHR ''b'' then emit [CHR 0x08] (unquote_loop (drop 2 s))
             else if e = CHR ''f'' then emit [CHR 0x0C] (unquote_loop (drop 2 s))
             else if e = CHR ''n'' then emit [CHR 0x0A] (unquote_loop (drop 2 s))
             else if e = CHR ''r'' then emit [CHR 0x0D] (unquote_loop (drop 2 s))
             else if e = CHR ''t'' then emit [CHR 0x09] (unquote_loop (drop 2 s))
             else if e = CHR ''u'' then
               (case getu4 s of
                  None \<Rightarrow> None
                | Some rr \<Rightarrow>
                    if utf16_IsSurrogate rr then
                      (let dec = utf16_DecodeRune rr (getu4 (drop 6 s)) in
                       if dec \<noteq> RuneError then emit (EncodeRune dec) (unquote_loop (drop 12 s))
                       else emit (EncodeRune RuneError) (unquote_loop (drop 6 s)))
                    else emit (EncodeRune rr) (unquote_loop (drop 6 s)))
             else None)
        else if c = CHR 0x22 \<or> (of_char c :: nat) < 0x20 then None
        else if (of_char c :: nat) < RuneSelf then emit [c] (unquote_loop (tl s))
        else let (rr, w) = DecodeRune s in emit (EncodeRune rr) (unquote_loop (drop w s)))"
  by pat_completeness auto
termination
  by (relation "measure length") (simp_all add: drop_DecodeRune_shorter)

declare unquote_loop.simps [simp del]

text \<open>
  The first loop of \<^verbatim>\<open>unquoteBytes\<close>: the index of the first byte that needs work (an
  escape, a quote, a control character, invalid UTF-8). When there is none the literal
  is returned as it is; otherwise the bytes before it are copied and the loop above
  goes on from there.
\<close>

function unusualAt :: "string \<Rightarrow> nat" where
  "unusualAt s =
     (if s = [] then 0
      else
        let c = hd s in
        if c = CHR 0x5C \<or> c = CHR 0x22 \<or> (of_char c :: nat) < 0x20 then 0
        else if (of_char c :: nat) < RuneSelf then 1 + unusualAt (tl s)
        else
          let (rr, w) = DecodeRune s in
          if rr = RuneError \<and> w = 1 then 0 else w + unusualAt (drop w s))"
  by pat_completeness auto
termination
  by (relation "measure length") (simp_all add: drop_DecodeRune_shorter)

declare unusualAt.simps [simp del]

definition unquoteBytes :: "string \<Rightarrow> string option" where
  "unquoteBytes body =
     (let r = unusualAt body in
      if r = length body then Some body
      else emit (take r body) (unquote_loop (drop r body)))"



subsection \<open>encoding/json: Unmarshal into a slice of strings\<close>

text \<open>
  After validation the decoder walks through the input with the same scanner. The
  target is a \<^verbatim>\<open>[]string\<close>:
  \<^item> a top-level array: every element adds one string to the result; a string literal is
    unquoted, \<^verbatim>\<open>null\<close> and every value of another type leave the element at the zero
    string, the latter with a saved \<^verbatim>\<open>UnmarshalTypeError\<close> (the error does not stop the
    decoder, and the caller drops it);
  \<^item> a top-level \<^verbatim>\<open>null\<close> sets the slice to nil;
  \<^item> any other top-level value leaves the slice unchanged, with a type error.
  The elements that the decoder does not set are the zero string because the only caller
  passes a new slice, whose array is zeroed. The state records the kind of the top-level
  value, the strings decoded so far, and the bytes of the string literal being read,
  if any. \<^verbatim>\<open>literalStore\<close> panics when \<^verbatim>\<open>unquoteBytes\<close> fails.
\<close>

datatype top_kind = TopArray | TopNull | TopOther

record decodeState =
  scan :: scanner
  top :: "top_kind option"
  out :: "string list"
  lit :: "string option"
  savedError :: bool
  phasePanic :: bool

definition decode_init :: decodeState where
  "decode_init = \<lparr>scan = scanner_reset, top = None, out = [], lit = None,
                   savedError = False, phasePanic = False\<rparr>"

definition beginsValue :: "scanner \<Rightarrow> char \<Rightarrow> bool" where
  "beginsValue s c =
     (\<not> json_isSpace c
      \<and> (step s = BeginValue \<or> (step s = BeginValueOrEmpty \<and> c \<noteq> CHR '']'')))"

definition decode_step :: "decodeState \<Rightarrow> char \<Rightarrow> decodeState" where
  "decode_step d c =
     (let s = scan d; d' = d\<lparr>scan := scanner_step s c\<rparr> in
      case lit d of
        Some body \<Rightarrow>
          if step s = InString \<and> c = CHR 0x22 then
            (case unquoteBytes body of
               Some t \<Rightarrow> d'\<lparr>out := out d @ [t], lit := None\<rparr>
             | None \<Rightarrow> d'\<lparr>lit := None, phasePanic := True\<rparr>)
          else d'\<lparr>lit := Some (body @ [c])\<rparr>
      | None \<Rightarrow>
          if beginsValue s c then
            (if parseState s = [] then
               d'\<lparr>top := Some (if c = CHR ''['' then TopArray
                                else if c = CHR ''n'' then TopNull else TopOther)\<rparr>
             else if length (parseState s) = 1 \<and> top d = Some TopArray then
               (if c = CHR 0x22 then d'\<lparr>lit := Some []\<rparr>
                else if c = CHR ''n'' then d'\<lparr>out := out d @ [[]]\<rparr>
                else d'\<lparr>out := out d @ [[]], savedError := True\<rparr>)
             else d')
          else d')"

datatype unmarshal_result = Panicked | Returned "go_error option" string_slice

definition json_Unmarshal :: "string \<Rightarrow> string_slice \<Rightarrow> unmarshal_result" where
  "json_Unmarshal data v =
     (if \<not> checkValid data then Returned (Some SyntaxError) v
      else
        let d = foldl decode_step decode_init data in
        if phasePanic d then Panicked
        else case top d of
            Some TopArray \<Rightarrow>
              Returned (if savedError d then Some UnmarshalTypeError else None) (Slice (out d))
          | Some TopNull \<Rightarrow> Returned None NilSlice
          | _ \<Rightarrow> Returned (Some UnmarshalTypeError) v)"

section \<open>The persistent clipboard manager (main.go)\<close>

text \<open>
  What the program touches outside its own memory: the files (by path), the paths that
  cannot be written, and the text on the system clipboard.
\<close>

record os_state =
  files :: "string \<rightharpoonup> string"
  unwritable :: "string set"
  pasteboard :: string

text \<open>\<^verbatim>\<open>os.ReadFile\<close>: the contents, or an error when the file does not exist.\<close>

definition os_ReadFile :: "string \<Rightarrow> os_state \<Rightarrow> go_error + string" where
  "os_ReadFile name os = (case files os name of None \<Rightarrow> Inl PathError | Some data \<Rightarrow> Inr data)"

text \<open>
  \<^verbatim>\<open>os.WriteFile\<close>: replaces the contents of the file, or fails and leaves the files as
  they are.
\<close>

definition os_WriteFile :: "string \<Rightarrow> string \<Rightarrow> os_state \<Rightarrow> go_error option \<times> os_state" where
  "os_WriteFile name data os =
     (if name \<in> unwritable os then (Some PathError, os)
      else (None, os\<lparr>files := (files os)(name \<mapsto> data)\<rparr>))"

definition maxClips :: nat where
  "maxClips = 5"

record ClipboardManager =
  clips :: string_slice
  lastContent :: string
  dataFile :: string

text \<open>\<^verbatim>\<open>saveClips\<close>: both errors are dropped.\<close>

definition saveClips :: "ClipboardManager \<Rightarrow> os_state \<Rightarrow> os_state" where
  "saveClips cm os =
     (case json_Marshal (clips cm) of
        Inl err \<Rightarrow> os
      | Inr data \<Rightarrow> snd (os_WriteFile (dataFile cm) data os))"

text \<open>
  The loop of \<^verbatim>\<open>addClip\<close> that removes the first clip equal to \<open>content\<close>:
  \<^verbatim>\<open>append(cm.clips[:i], cm.clips[i+1:]...)\<close> and \<^verbatim>\<open>break\<close>.
\<close>

fun removeExisting :: "string \<Rightarrow> string list \<Rightarrow> string list" where
  "removeExisting content [] = []"
| "removeExisting content (clip # rest) =
     (if clip = content then rest else clip # removeExisting content rest)"

text \<open>
  \<^verbatim>\<open>addClip\<close>. The manager and the outside world go in and come out; the world changes
  only through \<^verbatim>\<open>saveClips\<close>.
\<close>

definition addClip :: "string \<Rightarrow> ClipboardManager \<Rightarrow> os_state \<Rightarrow> ClipboardManager \<times> os_state" where
  "addClip content0 cm os =
     (let content = TrimSpace content0 in
      if content = [] \<or> content = lastContent cm then (cm, os)
      else
        let removed = removeExisting content (elems (clips cm));
            added = content # removed;
            kept = (if length added > maxClips then take maxClips added else added);
            cm' = cm\<lparr>clips := Slice kept, lastContent := content\<rparr>
        in (cm', saveClips cm' os))"

definition getClips :: "ClipboardManager \<Rightarrow> string_slice" where
  "getClips cm = clips cm"

text \<open>\<^verbatim>\<open>setClip\<close>: writes the text to the system clipboard and records it.\<close>

definition setClip :: "string \<Rightarrow> ClipboardManager \<Rightarrow> os_state \<Rightarrow> ClipboardManager \<times> os_state" where
  "setClip content cm os = (cm\<lparr>lastContent := content\<rparr>, os\<lparr>pasteboard := content\<rparr>)"

text \<open>
  The handler of the menu item "Clear History" in \<^verbatim>\<open>updateMenu\<close>:
  \<^verbatim>\<open>clipManager.clips = []string{}; clipManager.saveClips()\<close>.
\<close>

definition clearHistory :: "ClipboardManager \<Rightarrow> os_state \<Rightarrow> ClipboardManager \<times> os_state" where
  "clearHistory cm os = (let cm' = cm\<lparr>clips := Slice []\<rparr> in (cm', saveClips cm' os))"

text \<open>One tick of \<^verbatim>\<open>monitorClipboard\<close>: reads the clipboard and adds a non-empty text.\<close>

definition monitorTick :: "ClipboardManager \<Rightarrow> os_state \<Rightarrow> ClipboardManager \<times> os_state" where
  "monitorTick cm os =
     (let data = pasteboard os in
      if length data > 0 then addClip data cm os else (cm, os))"

text \<open>
  The struct that \<^verbatim>\<open>NewClipboardManager\<close> builds before it loads the file. The path,
  which the program computes from the home directory, is a parameter.
\<close>

definition emptyManager :: "string \<Rightarrow> ClipboardManager" where
  "emptyManager path = \<lparr>clips = Slice [], lastContent = [], dataFile = path\<rparr>"

text \<open>
  \<^verbatim>\<open>loadClips\<close>: a file that cannot be read leaves the manager as it is; the error of
  \<^verbatim>\<open>json.Unmarshal\<close> is dropped.
\<close>

definition loadClips :: "ClipboardManager \<Rightarrow> os_state \<Rightarrow> go_panic + ClipboardManager" where
  "loadClips cm os =
     (case os_ReadFile (dataFile cm) os of
        Inl err \<Rightarrow> Inr cm
      | Inr data \<Rightarrow>
          (case json_Unmarshal data (clips cm) of
             Panicked \<Rightarrow> Inl JsonPhasePanic
           | Returned err v \<Rightarrow> Inr (cm\<lparr>clips := v\<rparr>)))"

text \<open>\<^verbatim>\<open>NewClipboardManager\<close>: the new manager, then \<^verbatim>\<open>loadClips\<close>.\<close>

definition NewClipboardManager :: "string \<Rightarrow> os_state \<Rightarrow> go_panic + ClipboardManager" where
  "NewClipboardManager path os = loadClips (emptyManager path) os"

text \<open>A sequence of calls of \<^verbatim>\<open>addClip\<close>, in order.\<close>

fun addClips :: "string list \<Rightarrow> ClipboardManager \<Rightarrow> os_state \<Rightarrow> ClipboardManager \<times> os_state" where
  "addClips [] cm os = (cm, os)"
| "addClips (t # ts) cm os = (case addClip t cm os of (cm', os') \<Rightarrow> addClips ts cm' os')"

section \<open>The in-memory clipboard manager (multiclip/src/main.go)\<close>

text \<open>
  The second program has a manager of its own, with a mutex (calls are modelled one at a
  time) and a size limit in a field. Slicing \<^verbatim>\<open>cm.history[:cm.maxSize]\<close> with a negative
  \<open>maxSize\<close> panics.
\<close>

record ClipboardManager2 =
  history :: "string list"
  maxSize :: int

definition NewClipboardManager2 :: ClipboardManager2 where
  "NewClipboardManager2 = \<lparr>history = [], maxSize = 5\<rparr>"

text \<open>The loop of \<^verbatim>\<open>AddItem\<close> that looks for an equal item.\<close>

fun alreadyExists :: "string \<Rightarrow> string list \<Rightarrow> bool" where
  "alreadyExists text [] = False"
| "alreadyExists text (item # rest) = (if item = text then True else alreadyExists text rest)"

definition AddItem :: "string \<Rightarrow> ClipboardManager2 \<Rightarrow> go_panic + ClipboardManager2" where
  "AddItem text0 cm =
     (let text = TrimSpace text0 in
      if text = [] \<or> length text > 200 then Inr cm
      else if alreadyExists text (history cm) then Inr cm
      else
        let added = text # history cm in
        if int (length added) > maxSize cm then
          (if maxSize cm < 0 then Inl SliceBoundsOutOfRange
           else Inr (cm\<lparr>history := take (nat (maxSize cm)) added\<rparr>))
        else Inr (cm\<lparr>history := added\<rparr>))"

text \<open>\<^verbatim>\<open>GetHistory\<close> returns a new slice with the same elements.\<close>

definition GetHistory :: "ClipboardManager2 \<Rightarrow> string list" where
  "GetHistory cm = history cm"

fun AddItems :: "string list \<Rightarrow> ClipboardManager2 \<Rightarrow> go_panic + ClipboardManager2" where
  "AddItems [] cm = Inr cm"
| "AddItems (t # ts) cm = (case AddItem t cm of Inl e \<Rightarrow> Inl e | Inr cm' \<Rightarrow> AddItems ts cm')"

section \<open>Slices and their backing arrays\<close>

text \<open>
  A slice value is a reference to a backing array, with an offset, a length and a
  capacity, or nil. The heap is the sequence of the arrays allocated so far; an address
  is an index into it, so that a new array always gets a new address.
\<close>

type_synonym addr = nat
type_synonym heap = "string list list"

datatype slice_ref = NilRef | Ref addr nat nat nat

fun slice_len :: "slice_ref \<Rightarrow> nat" where
  "slice_len NilRef = 0"
| "slice_len (Ref a off n c) = n"

fun slice_read :: "heap \<Rightarrow> slice_ref \<Rightarrow> string list" where
  "slice_read h NilRef = []"
| "slice_read h (Ref a off n c) = take n (drop off (h ! a))"

text \<open>
  The slice expressions \<^verbatim>\<open>s[:j]\<close> and \<^verbatim>\<open>s[i:]\<close>. The programs use them with
  \<open>j\<close> and \<open>i\<close> within the length of \<open>s\<close>, where they do not panic.
\<close>

fun slice_to :: "slice_ref \<Rightarrow> nat \<Rightarrow> slice_ref" where
  "slice_to NilRef j = NilRef"
| "slice_to (Ref a off n c) j = Ref a off j c"

fun slice_from :: "slice_ref \<Rightarrow> nat \<Rightarrow> slice_ref" where
  "slice_from NilRef i = NilRef"
| "slice_from (Ref a off n c) i = Ref a (off + i) (n - i) (c - i)"

text \<open>
  A composite literal \<^verbatim>\<open>[]string{...}\<close> and \<^verbatim>\<open>make([]string, n, c)\<close> allocate an
  array.
\<close>

definition go_alloc :: "string list \<Rightarrow> heap \<Rightarrow> slice_ref \<times> heap" where
  "go_alloc xs h = (Ref (length h) 0 (length xs) (length xs), h @ [xs])"

definition go_make :: "nat \<Rightarrow> nat \<Rightarrow> heap \<Rightarrow> slice_ref \<times> heap" where
  "go_make n c h = (Ref (length h) 0 n c, h @ [replicate c []])"

text \<open>
  \<^verbatim>\<open>append(s, xs...)\<close>: when the capacity suffices the elements are written into the
  backing array of \<open>s\<close>, after its length, and every slice that shares the array sees
  them; otherwise a new array is allocated. (Go may give the new array spare capacity;
  the model gives it none.)
\<close>

definition write_at :: "string list \<Rightarrow> nat \<Rightarrow> string list \<Rightarrow> string list" where
  "write_at arr pos xs = take pos arr @ xs @ drop (pos + length xs) arr"

fun go_append :: "slice_ref \<Rightarrow> string list \<Rightarrow> heap \<Rightarrow> slice_ref \<times> heap" where
  "go_append NilRef xs h = (if xs = [] then (NilRef, h) else go_alloc xs h)"
| "go_append (Ref a off n c) xs h =
     (if n + length xs \<le> c
      then (Ref a off (n + length xs) c, h[a := write_at (h ! a) (off + n) xs])
      else go_alloc (slice_read h (Ref a off n c) @ xs) h)"

text \<open>
  The persistent manager again, with \<^verbatim>\<open>clips\<close> as a slice into the heap.
\<close>

record ClipboardManagerH =
  clipsH :: slice_ref
  lastContentH :: string
  dataFileH :: string

definition abs_slice :: "heap \<Rightarrow> slice_ref \<Rightarrow> string_slice" where
  "abs_slice h s = (case s of NilRef \<Rightarrow> NilSlice | Ref a off n c \<Rightarrow> Slice (slice_read h s))"

definition abs_manager :: "heap \<Rightarrow> ClipboardManagerH \<Rightarrow> ClipboardManager" where
  "abs_manager h cm =
     \<lparr>clips = abs_slice h (clipsH cm), lastContent = lastContentH cm, dataFile = dataFileH cm\<rparr>"

text \<open>
  The loop of \<^verbatim>\<open>addClip\<close>: the index of the first clip equal to \<open>content\<close>, and
  \<^verbatim>\<open>cm.clips = append(cm.clips[:i], cm.clips[i+1:]...)\<close>, which writes into the array
  of \<^verbatim>\<open>cm.clips\<close> itself.
\<close>

fun findClip :: "string \<Rightarrow> string list \<Rightarrow> nat option" where
  "findClip content [] = None"
| "findClip content (clip # rest) =
     (if clip = content then Some 0 else map_option Suc (findClip content rest))"

definition removeExistingH :: "string \<Rightarrow> slice_ref \<Rightarrow> heap \<Rightarrow> slice_ref \<times> heap" where
  "removeExistingH content s h =
     (case findClip content (slice_read h s) of
        None \<Rightarrow> (s, h)
      | Some i \<Rightarrow> go_append (slice_to s i) (slice_read h (slice_from s (i + 1))) h)"

definition addClipH ::
  "string \<Rightarrow> ClipboardManagerH \<Rightarrow> heap \<Rightarrow> os_state \<Rightarrow> ClipboardManagerH \<times> heap \<times> os_state" where
  "addClipH content0 cm h os =
     (let content = TrimSpace content0 in
      if content = [] \<or> content = lastContentH cm then (cm, h, os)
      else
        let (s1, h1) = removeExistingH content (clipsH cm) h;
            (lit, h2) = go_alloc [content] h1;
            (s2, h3) = go_append lit (slice_read h2 s1) h2;
            s3 = (if slice_len s2 > maxClips then slice_to s2 maxClips else s2);
            cm' = cm\<lparr>clipsH := s3, lastContentH := content\<rparr>
        in (cm', h3, saveClips (abs_manager h3 cm') os))"

text \<open>\<^verbatim>\<open>getClips\<close> returns the slice value of the field: the same array.\<close>

definition getClipsH :: "ClipboardManagerH \<Rightarrow> slice_ref" where
  "getClipsH cm = clipsH cm"

definition emptyManagerH :: "string \<Rightarrow> heap \<Rightarrow> ClipboardManagerH \<times> heap" where
  "emptyManagerH path h =
     (let (s, h') = go_make 0 maxClips h in
      (\<lparr>clipsH = s, lastContentH = [], dataFileH = path\<rparr>, h'))"

text \<open>A slice lies within its array.\<close>

fun wf_slice :: "heap \<Rightarrow> slice_ref \<Rightarrow> bool" where
  "wf_slice h NilRef = True"
| "wf_slice h (Ref a off n c) = (a < length h \<and> off + c \<le> length (h ! a) \<and> n \<le> c)"

text \<open>
  The in-memory manager with \<^verbatim>\<open>history\<close> as a slice into the heap. \<^verbatim>\<open>GetHistory\<close>
  makes a new slice and copies the elements into it.
\<close>

record ClipboardManager2H =
  historyH :: slice_ref
  maxSizeH :: int

definition go_copy :: "slice_ref \<Rightarrow> string list \<Rightarrow> heap \<Rightarrow> heap" where
  "go_copy dst src h =
     (case dst of
        NilRef \<Rightarrow> h
      | Ref a off n c \<Rightarrow> h[a := write_at (h ! a) off (take n src)])"

definition GetHistoryH :: "ClipboardManager2H \<Rightarrow> heap \<Rightarrow> slice_ref \<times> heap" where
  "GetHistoryH cm h =
     (let n = slice_len (historyH cm);
          (result, h1) = go_make n n h;
          h2 = go_copy result (slice_read h1 (historyH cm)) h1
      in (result, h2))"

definition AddItemH ::
  "string \<Rightarrow> ClipboardManager2H \<Rightarrow> heap \<Rightarrow> go_panic + ClipboardManager2H \<times> heap" where
  "AddItemH text0 cm h =
     (let text = TrimSpace text0 in
      if text = [] \<or> length text > 200 then Inr (cm, h)
      else if alreadyExists text (slice_read h (historyH cm)) then Inr (cm, h)
      else
        let (lit, h1) = go_alloc [text] h;
            (added, h2) = go_append lit (slice_read h1 (historyH cm)) h1
        in if int (slice_len added) > maxSizeH cm then
             (if maxSizeH cm < 0 then Inl SliceBoundsOutOfRange
              else Inr (cm\<lparr>historyH := slice_to added (nat (maxSizeH cm))\<rparr>, h2))
           else Inr (cm\<lparr>historyH := added\<rparr>, h2))"

text \<open>The arrays of \<open>h\<close> are all in \<open>h'\<close>, unchanged.\<close>

definition heap_extends :: "heap \<Rightarrow> heap \<Rightarrow> bool" where
  "heap_extends h h' = (length h \<le> length h' \<and> (\<forall>a<length h. h' ! a = h ! a))"

section \<open>JSON texts of arrays of strings\<close>

text \<open>
  The texts that are JSON arrays of strings (RFC 8259), described from the outside, not
  through the decoder. A string literal is a sequence of items between quotes:
  \<^item> \<open>Plain\<close>: one code point in UTF-8, not a control character, quote or backslash;
  \<^item> \<open>Escape\<close>: a backslash and one of the characters of \<open>simpleEscapes\<close>;
  \<^item> \<open>Unicode\<close>: a backslash, u and four hexadecimal digits that are not a surrogate;
  \<^item> \<open>Pair\<close>: two such escapes, a high surrogate and a low surrogate.
  \<open>render_item\<close> is the text of an item in the file and \<open>denote_item\<close> the bytes of
  the string it stands for.
\<close>

datatype item = Plain string | Escape char | Unicode string | Pair string string

definition simpleEscapes :: "(char \<times> char) list" where
  "simpleEscapes =
     [(CHR 0x22, CHR 0x22), (CHR 0x5C, CHR 0x5C), (CHR ''/'', CHR ''/''), (CHR ''b'', CHR 0x08),
      (CHR ''f'', CHR 0x0C), (CHR ''n'', CHR 0x0A), (CHR ''r'', CHR 0x0D), (CHR ''t'', CHR 0x09)]"

fun wf_item :: "item \<Rightarrow> bool" where
  "wf_item (Plain bs) =
     (bs \<noteq> [] \<and> DecodeRune bs \<noteq> (RuneError, 1) \<and> snd (DecodeRune bs) = length bs
      \<and> hd bs \<noteq> CHR 0x22 \<and> hd bs \<noteq> CHR 0x5C \<and> (0x20::nat) \<le> of_char (hd bs))"
| "wf_item (Escape e) = (map_of simpleEscapes e \<noteq> None)"
| "wf_item (Unicode hs) =
     (length hs = 4 \<and> (case hexDigits 0 hs of None \<Rightarrow> False | Some r \<Rightarrow> \<not> utf16_IsSurrogate r))"
| "wf_item (Pair hi lo) =
     (length hi = 4 \<and> length lo = 4
      \<and> (case hexDigits 0 hi of
            None \<Rightarrow> False
          | Some r1 \<Rightarrow>
              (case hexDigits 0 lo of
                 None \<Rightarrow> False
               | Some r2 \<Rightarrow> 0xD800 \<le> r1 \<and> r1 < 0xDC00 \<and> 0xDC00 \<le> r2 \<and> r2 < 0xE000)))"

fun render_item :: "item \<Rightarrow> string" where
  "render_item (Plain bs) = bs"
| "render_item (Escape e) = [CHR 0x5C, e]"
| "render_item (Unicode hs) = CHR 0x5C # CHR ''u'' # hs"
| "render_item (Pair hi lo) = CHR 0x5C # CHR ''u'' # hi @ CHR 0x5C # CHR ''u'' # lo"

fun denote_item :: "item \<Rightarrow> string" where
  "denote_item (Plain bs) = bs"
| "denote_item (Escape e) = [the (map_of simpleEscapes e)]"
| "denote_item (Unicode hs) = EncodeRune (the (hexDigits 0 hs))"
| "denote_item (Pair hi lo) =
     EncodeRune (0x10000 + (the (hexDigits 0 hi) - 0xD800) * 1024 + (the (hexDigits 0 lo) - 0xDC00))"

definition literal_text :: "item list \<Rightarrow> string" where
  "literal_text items = CHR 0x22 # concat (map render_item items) @ [CHR 0x22]"

definition literal_value :: "item list \<Rightarrow> string" where
  "literal_value items = concat (map denote_item items)"

text \<open>
  An element of the array is a string literal with whitespace before and after it; the
  array is the bracketed list of its elements, separated by commas, with whitespace
  around it (\<open>wi\<close> is the whitespace inside an empty array).
\<close>

type_synonym element = "string \<times> item list \<times> string"

fun element_text :: "element \<Rightarrow> string" where
  "element_text (w1, items, w2) = w1 @ literal_text items @ w2"

fun elements_text :: "element list \<Rightarrow> string" where
  "elements_text [] = []"
| "elements_text [e] = element_text e"
| "elements_text (e # e' # es) = element_text e @ CHR '','' # elements_text (e' # es)"

definition array_text :: "string \<Rightarrow> string \<Rightarrow> element list \<Rightarrow> string \<Rightarrow> string" where
  "array_text w0 wi els w1 =
     w0 @ CHR ''['' # (if els = [] then wi else elements_text els) @ CHR '']'' # w1"

fun wf_element :: "element \<Rightarrow> bool" where
  "wf_element (w1, items, w2) =
     (list_all json_isSpace w1 \<and> list_all wf_item items \<and> list_all json_isSpace w2)"

definition array_value :: "element list \<Rightarrow> string list" where
  "array_value els = map (\<lambda>(w1, items, w2). literal_value items) els"

text \<open>
  The states of the decoder while it reads a top-level array of strings, and when it
  has read it.
\<close>

definition inArray :: "scan_step \<Rightarrow> string list \<Rightarrow> string option \<Rightarrow> decodeState" where
  "inArray st strs l =
     \<lparr>scan = \<lparr>step = st, parseState = [ParseArrayValue], scanErr = False, endTop = False\<rparr>,
      top = Some TopArray, out = strs, lit = l, savedError = False, phasePanic = False\<rparr>"

definition doneArray :: "string list \<Rightarrow> decodeState" where
  "doneArray strs =
     \<lparr>scan = \<lparr>step = EndTop, parseState = [], scanErr = False, endTop = True\<rparr>,
      top = Some TopArray, out = strs, lit = None, savedError = False, phasePanic = False\<rparr>"

section \<open>Properties\<close>

lemmas scan_eval = checkValid_def scanner_eof_def scanner_reset_def scanner_step_def
  stateBeginValue_def stateBeginValueOrEmpty_def stateEndValue_def stateEndTop_def json_isSpace_def
  pushParseState_def popParseState_def maxNestingDepth_def Let_def scan_error_def
  stateBeginString_def stateBeginStringOrEmpty_def state0_def stateESign_def expect_def
  isDigit_def isHexDigit_def

lemmas unq_eval = unquoteBytes_def unusualAt.simps unquote_loop.simps emit_def RuneSelf_def getu4_def
  hexDigitValue_def utf16_IsSurrogate_def utf16_DecodeRune_def EncodeRune_def RuneError_def first_def
  Let_def locb_def hicb_def char_of_eq_iff

lemmas dec_eval = json_Unmarshal_def decode_step_def decode_init_def beginsValue_def


lemma removeExisting_remove1: "removeExisting x xs = remove1 x xs"
  by (induction xs) auto

lemma length_removeExisting: "length (removeExisting x xs) \<le> length xs"
  by (induction xs) auto

lemma alreadyExists_set: "alreadyExists x xs \<longleftrightarrow> x \<in> set xs"
  by (induction xs) auto

lemma addClip_length:
  "length (elems (clips cm)) \<le> maxClips \<Longrightarrow>
   length (elems (clips (fst (addClip t cm os)))) \<le> maxClips"
  by (simp add: addClip_def Let_def)

lemma addClips_length:
  "length (elems (clips cm)) \<le> maxClips \<Longrightarrow>
   length (elems (clips (fst (addClips ts cm os)))) \<le> maxClips"
proof (induction ts arbitrary: cm os)
  case Nil
  then show ?case by simp
next
  case (Cons t ts)
  obtain cm' os' where step: "addClip t cm os = (cm', os')"
    by (cases "addClip t cm os")
  with Cons.prems addClip_length [of cm t os]
  have "length (elems (clips cm')) \<le> maxClips" by simp
  then show ?case using Cons.IH [of cm' os'] step by simp
qed

lemma AddItem_invariant:
  assumes "maxSize cm = 5" and "length (history cm) \<le> 5"
  shows "\<exists>cm'. AddItem t cm = Inr cm' \<and> maxSize cm' = 5 \<and> length (history cm') \<le> 5"
  using assms by (simp add: AddItem_def Let_def)

lemma AddItems_invariant:
  assumes "maxSize cm = 5" and "length (history cm) \<le> 5"
  shows "\<exists>cm'. AddItems ts cm = Inr cm' \<and> maxSize cm' = 5 \<and> length (history cm') \<le> 5"
  using assms
proof (induction ts arbitrary: cm)
  case Nil
  then show ?case by simp
next
  case (Cons t ts)
  from AddItem_invariant [OF Cons.prems, of t]
  obtain cm1 where 1: "AddItem t cm = Inr cm1" "maxSize cm1 = 5" "length (history cm1) \<le> 5"
    by blast
  from Cons.IH [OF 1(2,3)] 1(1) show ?case by simp
qed

lemma TrimSpace_letters [simp]: "TrimSpace ''a'' = ''a''" "TrimSpace ''b'' = ''b''" "TrimSpace ''c'' = ''c''"
  "TrimSpace ''d'' = ''d''" "TrimSpace ''e'' = ''e''" "TrimSpace ''f'' = ''f''" "TrimSpace ''x'' = ''x''"
  by (simp_all add: TrimSpace_def TrimSpace_stop.simps asciiSpace_def RuneSelf_def)

lemma addClip_distinct:
  "distinct (elems (clips cm)) \<Longrightarrow> distinct (elems (clips (fst (addClip t cm os))))"
  by (auto simp: addClip_def Let_def removeExisting_remove1 dest: in_set_takeD)

lemma AddItem_distinct:
  "distinct (history cm) \<Longrightarrow> AddItem t cm = Inr cm' \<Longrightarrow> distinct (history cm')"
  by (auto simp: AddItem_def Let_def alreadyExists_set split: if_splits dest: in_set_takeD)

lemma addClip_noop: "TrimSpace t = lastContent cm \<Longrightarrow> addClip t cm os = (cm, os)"
  by (simp add: addClip_def)

lemma addClips_snoc:
  "addClips (ts @ [t]) cm os = (case addClips ts cm os of (cm', os') \<Rightarrow> addClip t cm' os')"
  by (induction ts arbitrary: cm os) (auto split: prod.splits)

lemma addClip_effective:
  assumes "TrimSpace t \<noteq> []" "TrimSpace t \<noteq> lastContent cm"
  shows "elems (clips (fst (addClip t cm os))) = take 5 (TrimSpace t # remove1 (TrimSpace t) (elems (clips cm)))"
    and "lastContent (fst (addClip t cm os)) = TrimSpace t"
  using assms by (simp_all add: addClip_def Let_def maxClips_def removeExisting_remove1)

lemma take_remove1_prefix:
  assumes "t \<notin> set as"
  shows "\<exists>rest'. take 4 (remove1 t (take 5 (as @ rest))) = take 4 (as @ rest')"
proof (cases "5 \<le> length as")
  case True
  then have eq: "take 5 (as @ rest) = take 5 as" by simp
  have "t \<notin> set (take 5 as)" using assms by (auto dest: in_set_takeD)
  then have "remove1 t (take 5 as) = take 5 as" by (rule remove1_idem)
  then have "take 4 (remove1 t (take 5 (as @ rest))) = take 4 (take 5 as)"
    by (simp only: eq)
  also have "\<dots> = take 4 (as @ [])" by simp
  finally show ?thesis by blast
next
  case False
  then have "take 5 (as @ rest) = as @ take (5 - length as) rest" by simp
  then have "remove1 t (take 5 (as @ rest)) = as @ remove1 t (take (5 - length as) rest)"
    using assms by (simp add: remove1_append)
  then have "take 4 (remove1 t (take 5 (as @ rest)))
      = take 4 (as @ remove1 t (take (5 - length as) rest))"
    by (simp only:)
  then show ?thesis by (rule exI)
qed

lemma addClips_recent:
  assumes "ts \<noteq> []" "distinct ts" "\<forall>t\<in>set ts. TrimSpace t = t \<and> t \<noteq> []" "hd ts \<noteq> lastContent cm"
  shows "(\<exists>rest. elems (clips (fst (addClips ts cm os))) = take 5 (rev ts @ rest))
         \<and> lastContent (fst (addClips ts cm os)) = last ts"
  using assms
proof (induction ts rule: rev_nonempty_induct)
  case (single t)
  then have "TrimSpace t \<noteq> []" "TrimSpace t \<noteq> lastContent cm" "TrimSpace t = t" by auto
  from addClip_effective [OF this(1,2), of os] this(3)
  show ?case by (auto split: prod.splits)
next
  case (snoc t ts)
  obtain cm' os' where run: "addClips ts cm os = (cm', os')" by (cases "addClips ts cm os")
  from snoc have pre: "distinct ts" "\<forall>t\<in>set ts. TrimSpace t = t \<and> t \<noteq> []" "hd ts \<noteq> lastContent cm"
    by auto
  from snoc.IH [OF pre] run obtain rest where
    cl: "elems (clips cm') = take 5 (rev ts @ rest)" and la: "lastContent cm' = last ts"
    by auto
  from snoc.prems snoc.hyps have t: "TrimSpace t = t" "t \<noteq> []" "t \<notin> set ts" "t \<noteq> last ts"
    by auto
  then have eff: "TrimSpace t \<noteq> []" "TrimSpace t \<noteq> lastContent cm'"
    using la by auto
  from t(3) have "t \<notin> set (rev ts)" by simp
  from take_remove1_prefix [OF this, of rest] obtain rest' where
    r: "take 4 (remove1 t (take 5 (rev ts @ rest))) = take 4 (rev ts @ rest')" by blast
  have "elems (clips (fst (addClip t cm' os'))) = take 5 (t # remove1 t (take 5 (rev ts @ rest)))"
    using addClip_effective(1) [OF eff, of os'] t(1) cl by simp
  also have "\<dots> = t # take 4 (rev ts @ rest')"
    using r by simp
  also have "\<dots> = take 5 (rev (ts @ [t]) @ rest')" by simp
  finally have "\<exists>rest. elems (clips (fst (addClip t cm' os'))) = take 5 (rev (ts @ [t]) @ rest)"
    by blast
  moreover have "lastContent (fst (addClip t cm' os')) = last (ts @ [t])"
    using addClip_effective(2) [OF eff, of os'] t(1) by simp
  ultimately show ?case by (simp add: addClips_snoc run)
qed

text \<open>
  Claim C1. Start from an empty manager with capacity 5 and make any sequence of insert
  calls: after every call (that is, after every initial part \<open>take n texts\<close> of the
  sequence) the snapshot has at most 5 entries. This holds for \<^verbatim>\<open>addClip\<close> and
  \<^verbatim>\<open>getClips\<close> of the persistent manager, whatever the state of the files, and for
  \<^verbatim>\<open>AddItem\<close> and \<^verbatim>\<open>GetHistory\<close> of the in-memory manager, where moreover no call
  panics.
\<close>

theorem C1_snapshot_length_at_most_capacity:
  "length (elems (getClips (fst (addClips (take n texts) (emptyManager path) os)))) \<le> 5
   \<and> (\<exists>cm'. AddItems (take n texts) NewClipboardManager2 = Inr cm'
             \<and> length (GetHistory cm') \<le> 5)"
proof
  have "length (elems (clips (emptyManager path))) \<le> maxClips"
    by (simp add: emptyManager_def)
  from addClips_length [OF this, of "take n texts" os]
  show "length (elems (getClips (fst (addClips (take n texts) (emptyManager path) os)))) \<le> 5"
    by (simp add: getClips_def maxClips_def)
next
  have "maxSize NewClipboardManager2 = 5" "length (history NewClipboardManager2) \<le> 5"
    by (simp_all add: NewClipboardManager2_def)
  from AddItems_invariant [OF this, of "take n texts"]
  show "\<exists>cm'. AddItems (take n texts) NewClipboardManager2 = Inr cm'
             \<and> length (GetHistory cm') \<le> 5"
    by (auto simp: GetHistory_def)
qed

lemma remove1_nth_distinct:
  "distinct xs \<Longrightarrow> k < length xs \<Longrightarrow> remove1 (xs ! k) xs = take k xs @ drop (Suc k) xs"
proof (induction xs arbitrary: k)
  case Nil
  then show ?case by simp
next
  case (Cons x xs)
  show ?case
  proof (cases k)
    case 0
    then show ?thesis by simp
  next
    case (Suc j)
    with Cons.prems have "xs ! j \<noteq> x" by auto
    with Suc Cons show ?thesis by simp
  qed
qed

lemma addClip_promotes:
  assumes "distinct (elems (clips cm))" and "length (elems (clips cm)) \<le> 5"
    and "[] \<notin> set (elems (clips cm))"
    and "k < length (elems (clips cm))" and "elems (clips cm) ! k = TrimSpace t"
    and "TrimSpace t \<noteq> lastContent cm"
  shows "elems (clips (fst (addClip t cm os)))
           = TrimSpace t # take k (elems (clips cm)) @ drop (Suc k) (elems (clips cm))"
proof -
  let ?cs = "elems (clips cm)"
  have ne: "TrimSpace t \<noteq> []" using assms(3,4,5) by (metis nth_mem)
  have rem: "removeExisting (TrimSpace t) ?cs = take k ?cs @ drop (Suc k) ?cs"
    using remove1_nth_distinct [OF assms(1,4)] assms(5) by (simp add: removeExisting_remove1)
  have len: "length (take k ?cs @ drop (Suc k) ?cs) = length ?cs - 1"
    using assms(4) by simp
  show ?thesis
    using ne assms(6) rem len assms(2,4) by (simp add: addClip_def Let_def maxClips_def)
qed

text \<open>
  Claim C2, as amended. In the persistent manager, for every store that satisfies the
  invariants (no duplicates, at most 5 entries, no empty entry) and every text whose
  trimmed form is the entry at an index \<open>k > 0\<close> and differs from \<open>lastContent\<close>,
  \<^verbatim>\<open>addClip\<close> moves that entry to index 0, leaves the other entries in their order
  (the entries before \<open>k\<close>, then those after \<open>k\<close>) and keeps the length; inserting
  a, b, c and a again gives the snapshot a, c, b. In the in-memory manager
  \<^verbatim>\<open>AddItem\<close> of a text whose trimmed form is already in the history changes nothing.
\<close>

theorem C2_reinsert_moves_to_front:
  assumes "distinct (elems (clips cm))" and "length (elems (clips cm)) \<le> 5"
    and "[] \<notin> set (elems (clips cm))"
    and "0 < k" and "k < length (elems (clips cm))"
    and "elems (clips cm) ! k = TrimSpace t"
    and "TrimSpace t \<noteq> lastContent cm"
    and "TrimSpace t2 \<in> set (history cm2)"
  shows "elems (getClips (fst (addClip t cm os)))
           = TrimSpace t # take k (elems (clips cm)) @ drop (Suc k) (elems (clips cm))
         \<and> elems (getClips (fst (addClip t cm os))) ! 0 = elems (clips cm) ! k
         \<and> length (elems (getClips (fst (addClip t cm os)))) = length (elems (clips cm))
         \<and> elems (getClips (fst (addClips [''a'', ''b'', ''c'', ''a''] (emptyManager path) os)))
             = [''a'', ''c'', ''b'']
         \<and> AddItem t2 cm2 = Inr cm2"
proof -
  have 1: "elems (getClips (fst (addClip t cm os)))
           = TrimSpace t # take k (elems (clips cm)) @ drop (Suc k) (elems (clips cm))"
    unfolding getClips_def using assms(1,2,3,5,6,7) by (rule addClip_promotes)
  have 2: "length (elems (getClips (fst (addClip t cm os)))) = length (elems (clips cm))"
    using assms(4,5) by (simp add: 1)
  have 3: "elems (getClips (fst (addClips [''a'', ''b'', ''c'', ''a''] (emptyManager path) os)))
             = [''a'', ''c'', ''b'']"
    by (simp add: addClip_def emptyManager_def getClips_def Let_def maxClips_def)
  have 4: "AddItem t2 cm2 = Inr cm2"
    using assms(8) by (simp add: AddItem_def Let_def alreadyExists_set)
  from 1 2 3 4 assms(6) show ?thesis by simp
qed

theorem C2_reinsert_moves_to_front_witness:
  "elems (getClips (fst (addClip ''a''
       \<lparr>clips = Slice [''c'', ''b'', ''a''], lastContent = ''c'', dataFile = ''f''\<rparr>
       \<lparr>files = Map.empty, unwritable = {}, pasteboard = ''a''\<rparr>))) = [''a'', ''c'', ''b'']
   \<and> AddItem ''a'' \<lparr>history = [''c'', ''b'', ''a''], maxSize = 5\<rparr>
       = Inr \<lparr>history = [''c'', ''b'', ''a''], maxSize = 5\<rparr>"
  using C2_reinsert_moves_to_front [of
      "\<lparr>clips = Slice [''c'', ''b'', ''a''], lastContent = ''c'', dataFile = ''f''\<rparr>"
      2 "''a''" "''a''" "\<lparr>history = [''c'', ''b'', ''a''], maxSize = 5\<rparr>"
      "\<lparr>files = Map.empty, unwritable = {}, pasteboard = ''a''\<rparr>" "''f''"]
  by simp

text \<open>
  Counterexample to claim C2 as stated, for the in-memory manager whose \<^verbatim>\<open>AddItem\<close>
  the claim cites: inserting a, b, c and a again leaves the history c, b, a.
\<close>

theorem C2_counterexample:
  "AddItems [''a'', ''b'', ''c'', ''a''] NewClipboardManager2
     = Inr \<lparr>history = [''c'', ''b'', ''a''], maxSize = 5\<rparr>
   \<and> GetHistory \<lparr>history = [''c'', ''b'', ''a''], maxSize = 5\<rparr> \<noteq> [''a'', ''c'', ''b'']"
  by (simp add: AddItem_def NewClipboardManager2_def GetHistory_def Let_def)

text \<open>
  Claim C3. On a store whose entries have no duplicates, every operation leaves entries
  without duplicates: \<^verbatim>\<open>addClip\<close>, the clear handler and \<^verbatim>\<open>setClip\<close> of the
  persistent manager, and \<^verbatim>\<open>AddItem\<close> of the in-memory manager (which returns
  normally when its size limit is not negative).
\<close>

theorem C3_no_duplicates_preserved:
  assumes "distinct (elems (clips cm))" and "distinct (history cm2)" and "0 \<le> maxSize cm2"
  shows "distinct (elems (clips (fst (addClip t cm os))))
         \<and> distinct (elems (clips (fst (clearHistory cm os))))
         \<and> distinct (elems (clips (fst (setClip t cm os))))
         \<and> (\<exists>cm2'. AddItem t cm2 = Inr cm2' \<and> distinct (history cm2'))"
proof -
  have "\<exists>cm2'. AddItem t cm2 = Inr cm2'"
    using assms(3) by (simp add: AddItem_def Let_def)
  then have "\<exists>cm2'. AddItem t cm2 = Inr cm2' \<and> distinct (history cm2')"
    using AddItem_distinct [OF assms(2)] by blast
  moreover have "distinct (elems (clips (fst (addClip t cm os))))"
    using assms(1) by (rule addClip_distinct)
  moreover have "distinct (elems (clips (fst (clearHistory cm os))))"
    by (simp add: clearHistory_def Let_def)
  moreover have "distinct (elems (clips (fst (setClip t cm os))))"
    using assms(1) by (simp add: setClip_def)
  ultimately show ?thesis by simp
qed

theorem C3_no_duplicates_preserved_witness:
  "distinct (elems (clips (fst (addClip ''b''
       \<lparr>clips = Slice [''c'', ''b'', ''a''], lastContent = ''c'', dataFile = ''f''\<rparr>
       \<lparr>files = Map.empty, unwritable = {}, pasteboard = ''b''\<rparr>))))
   \<and> (\<exists>cm2'. AddItem ''b'' \<lparr>history = [''c'', ''b'', ''a''], maxSize = 5\<rparr> = Inr cm2'
         \<and> distinct (history cm2'))"
  using C3_no_duplicates_preserved [of
      "\<lparr>clips = Slice [''c'', ''b'', ''a''], lastContent = ''c'', dataFile = ''f''\<rparr>"
      "\<lparr>history = [''c'', ''b'', ''a''], maxSize = 5\<rparr>" "''b''"
      "\<lparr>files = Map.empty, unwritable = {}, pasteboard = ''b''\<rparr>"]
  by simp

text \<open>
  Claim C4. Whenever the trimmed text equals \<open>lastContent\<close>, \<^verbatim>\<open>addClip\<close> changes
  neither the manager nor the files. In particular, starting from the empty manager,
  after \<^verbatim>\<open>addClip("x")\<close> and \<^verbatim>\<open>setClip("x")\<close> a tick of the clipboard monitor, which
  now reads x from the system clipboard, changes nothing, and the history is x alone.
\<close>

theorem C4_last_content_suppresses_insert:
  assumes "TrimSpace t = lastContent cm"
  shows "addClip t cm os = (cm, os)
         \<and> (case addClip ''x'' (emptyManager path) os0 of (cm1, os1) \<Rightarrow>
              case setClip ''x'' cm1 os1 of (cm2, os2) \<Rightarrow>
                monitorTick cm2 os2 = (cm2, os2)
                \<and> elems (getClips (fst (monitorTick cm2 os2))) = [''x'']
                \<and> count_list (elems (getClips (fst (monitorTick cm2 os2)))) ''x'' = 1)"
proof -
  have "addClip t cm os = (cm, os)"
    using assms by (rule addClip_noop)
  moreover have "case addClip ''x'' (emptyManager path) os0 of (cm1, os1) \<Rightarrow>
              case setClip ''x'' cm1 os1 of (cm2, os2) \<Rightarrow>
                monitorTick cm2 os2 = (cm2, os2)
                \<and> elems (getClips (fst (monitorTick cm2 os2))) = [''x'']
                \<and> count_list (elems (getClips (fst (monitorTick cm2 os2)))) ''x'' = 1"
    by (simp add: addClip_def setClip_def monitorTick_def emptyManager_def getClips_def
        Let_def maxClips_def)
  ultimately show ?thesis by simp
qed

theorem C4_last_content_suppresses_insert_witness:
  "addClip ''  x ''
       \<lparr>clips = Slice [''x'', ''y''], lastContent = ''x'', dataFile = ''f''\<rparr>
       \<lparr>files = Map.empty, unwritable = {}, pasteboard = ''  x ''\<rparr>
     = (\<lparr>clips = Slice [''x'', ''y''], lastContent = ''x'', dataFile = ''f''\<rparr>,
        \<lparr>files = Map.empty, unwritable = {}, pasteboard = ''  x ''\<rparr>)"
proof -
  have "TrimSpace ''  x '' = ''x''"
    by (simp add: TrimSpace_def TrimSpace_stop.simps asciiSpace_def RuneSelf_def)
  then have "TrimSpace ''  x ''
      = lastContent \<lparr>clips = Slice [''x'', ''y''], lastContent = ''x'', dataFile = ''f''\<rparr>"
    by simp
  from C4_last_content_suppresses_insert [OF this] show ?thesis by simp
qed

text \<open>
  Claim C5. Insert more than 5 texts that are trimmed, non-empty and pairwise different
  into a store in any state: the entries are then exactly the 5 texts inserted last, the
  most recent first. Inserting a, b, c, d, e, f into the empty store gives f, e, d, c, b.
\<close>

theorem C5_keeps_five_most_recent:
  assumes "distinct ts" and "\<forall>t\<in>set ts. TrimSpace t = t \<and> t \<noteq> []" and "length ts > 5"
  shows "elems (getClips (fst (addClips ts cm os))) = take 5 (rev ts)"
proof (cases "hd ts = lastContent cm")
  case False
  from assms(3) have "ts \<noteq> []" by auto
  from addClips_recent [OF this assms(1,2) False, of os] obtain rest where
    "elems (clips (fst (addClips ts cm os))) = take 5 (rev ts @ rest)" by blast
  then show ?thesis using assms(3) by (simp add: getClips_def)
next
  case True
  from assms(3) obtain t1 ts' where ts: "ts = t1 # ts'" by (cases ts) auto
  with assms have ne: "ts' \<noteq> []" and d: "distinct ts'" and tr: "\<forall>t\<in>set ts'. TrimSpace t = t \<and> t \<noteq> []"
    and len: "5 \<le> length ts'" and t1: "TrimSpace t1 = t1" and "t1 \<notin> set ts'"
    by auto
  then have "hd ts' \<noteq> t1" by (cases ts') auto
  with True ts have hd: "hd ts' \<noteq> lastContent cm" by simp
  have "addClip t1 cm os = (cm, os)"
    using True ts t1 by (simp add: addClip_noop)
  then have "addClips ts cm os = addClips ts' cm os" by (simp add: ts)
  moreover from addClips_recent [OF ne d tr hd, of os] obtain rest where
    "elems (clips (fst (addClips ts' cm os))) = take 5 (rev ts' @ rest)" by blast
  ultimately show ?thesis using len by (simp add: getClips_def ts)
qed


theorem C5_keeps_five_most_recent_witness:
  "elems (getClips (fst (addClips [''a'', ''b'', ''c'', ''d'', ''e'', ''f'']
       (emptyManager ''f'') \<lparr>files = Map.empty, unwritable = {}, pasteboard = []\<rparr>)))
     = [''f'', ''e'', ''d'', ''c'', ''b'']"
  using C5_keeps_five_most_recent [of "[''a'', ''b'', ''c'', ''d'', ''e'', ''f'']"
      "emptyManager ''f''" "\<lparr>files = Map.empty, unwritable = {}, pasteboard = []\<rparr>"]
  by simp

text \<open>
  Claim C7. The clear handler empties the entries, so that the snapshot is empty, and
  leaves \<open>lastContent\<close> as it was; \<^verbatim>\<open>addClip\<close> of a text whose trimmed form is not
  empty and differs from \<open>lastContent\<close> then stores it: it is the only entry and the
  new \<open>lastContent\<close>.
\<close>

theorem C7_clear_then_insert:
  assumes "TrimSpace t \<noteq> []" and "TrimSpace t \<noteq> lastContent cm"
  shows "elems (getClips (fst (clearHistory cm os))) = []
         \<and> lastContent (fst (clearHistory cm os)) = lastContent cm
         \<and> (case clearHistory cm os of (cm1, os1) \<Rightarrow>
              elems (getClips (fst (addClip t cm1 os1))) = [TrimSpace t]
              \<and> lastContent (fst (addClip t cm1 os1)) = TrimSpace t)"
  using assms by (simp add: clearHistory_def addClip_def getClips_def Let_def maxClips_def)

theorem C7_clear_then_insert_witness:
  "elems (getClips (fst (clearHistory
       \<lparr>clips = Slice [''x'', ''y''], lastContent = ''x'', dataFile = ''f''\<rparr>
       \<lparr>files = Map.empty, unwritable = {}, pasteboard = ''a''\<rparr>))) = []
   \<and> (case clearHistory
       \<lparr>clips = Slice [''x'', ''y''], lastContent = ''x'', dataFile = ''f''\<rparr>
       \<lparr>files = Map.empty, unwritable = {}, pasteboard = ''a''\<rparr> of (cm1, os1) \<Rightarrow>
         elems (getClips (fst (addClip ''a'' cm1 os1))) = [''a''])"
  using C7_clear_then_insert [of "''a''"
      "\<lparr>clips = Slice [''x'', ''y''], lastContent = ''x'', dataFile = ''f''\<rparr>"
      "\<lparr>files = Map.empty, unwritable = {}, pasteboard = ''a''\<rparr>"]
  by (simp add: split_def)

text \<open>The runes for which \<^verbatim>\<open>unicode.IsSpace\<close> holds, one by one.\<close>

definition spaceRunes :: "rune list" where
  "spaceRunes = [0x09, 0x0A, 0x0B, 0x0C, 0x0D, 0x20, 0x85, 0xA0, 0x1680,
     0x2000, 0x2001, 0x2002, 0x2003, 0x2004, 0x2005, 0x2006, 0x2007, 0x2008, 0x2009, 0x200A,
     0x2028, 0x2029, 0x202F, 0x205F, 0x3000]"

lemma range_cases:
  "(0x2000::nat) \<le> r \<Longrightarrow> r \<le> 0x200A \<Longrightarrow>
     r = 0x2000 \<or> r = 0x2001 \<or> r = 0x2002 \<or> r = 0x2003 \<or> r = 0x2004 \<or> r = 0x2005
     \<or> r = 0x2006 \<or> r = 0x2007 \<or> r = 0x2008 \<or> r = 0x2009 \<or> r = 0x200A"
  by arith

lemma IsSpace_spaceRunes: "IsSpace r \<Longrightarrow> r \<in> set spaceRunes"
proof -
  assume "IsSpace r"
  then consider "r \<in> {0x09, 0x0A, 0x0B, 0x0C, 0x0D, 0x20, 0x85, 0xA0}"
    | "0x2000 \<le> r \<and> r \<le> 0x200A"
    | "r \<in> {0x1680, 0x2028, 0x2029, 0x202F, 0x205F, 0x3000}"
    unfolding IsSpace_def by (cases "r \<le> 0xFF") auto
  then show "r \<in> set spaceRunes"
  proof cases
    case 1
    then show ?thesis unfolding spaceRunes_def by auto
  next
    case 2
    then show ?thesis using range_cases [of r] unfolding spaceRunes_def by auto
  next
    case 3
    then show ?thesis unfolding spaceRunes_def by auto
  qed
qed


lemma space_decode:
  "\<forall>r\<in>set spaceRunes. DecodeRune (EncodeRune r @ rest) = (r, length (EncodeRune r)) \<and> EncodeRune r \<noteq> []"
  by (simp add: spaceRunes_def EncodeRune_def first_def Let_def locb_def hicb_def)

lemma space_first:
  "\<forall>r\<in>set spaceRunes. (r < 0x80 \<longrightarrow> (\<exists>c. EncodeRune r = [c] \<and> (of_char c :: nat) < RuneSelf \<and> asciiSpace c))
      \<and> (\<not> r < 0x80 \<longrightarrow> (of_char (hd (EncodeRune r)) :: nat) \<ge> RuneSelf)"
  by (simp add: spaceRunes_def EncodeRune_def RuneSelf_def asciiSpace_def)

lemma TrimLeftFunc_spaces:
  "\<forall>r\<in>set rs. IsSpace r \<Longrightarrow> TrimLeftFunc IsSpace (string_of_runes rs) = []"
proof (induction rs)
  case Nil
  then show ?case by (simp add: string_of_runes_def TrimLeftFunc.simps)
next
  case (Cons r rs)
  then have sp: "IsSpace r" and mem: "r \<in> set spaceRunes"
    by (auto dest: IsSpace_spaceRunes)
  let ?rest = "string_of_runes rs"
  from mem space_decode [of ?rest]
  have dec: "DecodeRune (EncodeRune r @ ?rest) = (r, length (EncodeRune r))"
    and ne: "EncodeRune r \<noteq> []" by auto
  have "TrimLeftFunc IsSpace (EncodeRune r @ ?rest) = TrimLeftFunc IsSpace ?rest"
    using ne dec sp by (subst TrimLeftFunc.simps) simp
  with Cons show ?case by (simp add: string_of_runes_def)
qed

lemma TrimRightFunc_Nil: "TrimRightFunc [] f = []"
  by (simp add: TrimRightFunc_def lastIndexFunc.simps)

lemma TrimSpace_start_spaces:
  "\<forall>r\<in>set rs. IsSpace r \<Longrightarrow>
     TrimSpace_start (string_of_runes rs) = Inl [] \<or> TrimSpace_start (string_of_runes rs) = Inr []"
proof (induction rs)
  case Nil
  then show ?case by (simp add: string_of_runes_def)
next
  case (Cons r rs)
  then have mem: "r \<in> set spaceRunes"
    by (auto dest: IsSpace_spaceRunes)
  let ?rest = "string_of_runes rs"
  show ?case
  proof (cases "r < 0x80")
    case True
    with mem space_first obtain c where "EncodeRune r = [c]" "(of_char c :: nat) < RuneSelf" "asciiSpace c"
      by blast
    then have "TrimSpace_start (string_of_runes (r # rs)) = TrimSpace_start ?rest"
      by (simp add: string_of_runes_def)
    with Cons show ?thesis by simp
  next
    case False
    with mem space_first have hd: "(of_char (hd (EncodeRune r)) :: nat) \<ge> RuneSelf" by blast
    from mem space_decode [of ?rest] have "EncodeRune r \<noteq> []" by auto
    then obtain c cs where e: "EncodeRune r = c # cs" by (cases "EncodeRune r") auto
    have "TrimSpace_start (string_of_runes (r # rs))
            = Inl (TrimFunc (string_of_runes (r # rs)) IsSpace)"
      using hd e by (simp add: string_of_runes_def)
    also have "\<dots> = Inl []"
      using TrimLeftFunc_spaces [OF Cons.prems] by (simp add: TrimFunc_def TrimRightFunc_Nil)
    finally show ?thesis by simp
  qed
qed

lemma TrimSpace_spaces:
  "\<forall>r\<in>set rs. IsSpace r \<Longrightarrow> TrimSpace (string_of_runes rs) = []"
  using TrimSpace_start_spaces [of rs]
  by (auto simp: TrimSpace_def TrimSpace_stop.simps)

text \<open>
  Claim C8. A text that is empty or consists only of whitespace is the string of a
  sequence of runes that are all whitespace for \<^verbatim>\<open>unicode.IsSpace\<close>, which is what
  \<^verbatim>\<open>strings.TrimSpace\<close> removes. For every such text and every store, \<^verbatim>\<open>addClip\<close>
  returns the manager (entries and \<open>lastContent\<close>) and the files unchanged, and
  \<^verbatim>\<open>AddItem\<close> returns its manager unchanged.
\<close>

theorem C8_whitespace_insert_is_noop:
  assumes "\<forall>r\<in>set rs. IsSpace r"
  shows "addClip (string_of_runes rs) cm os = (cm, os)
         \<and> AddItem (string_of_runes rs) cm2 = Inr cm2"
  using TrimSpace_spaces [OF assms] by (simp add: addClip_def AddItem_def)

theorem C8_whitespace_insert_is_noop_witness:
  "addClip ''   '' \<lparr>clips = Slice [''x'', ''y''], lastContent = ''x'', dataFile = ''f''\<rparr>
       \<lparr>files = Map.empty, unwritable = {}, pasteboard = ''   ''\<rparr>
     = (\<lparr>clips = Slice [''x'', ''y''], lastContent = ''x'', dataFile = ''f''\<rparr>,
        \<lparr>files = Map.empty, unwritable = {}, pasteboard = ''   ''\<rparr>)
   \<and> AddItem ''   '' \<lparr>history = [''x''], maxSize = 5\<rparr> = Inr \<lparr>history = [''x''], maxSize = 5\<rparr>"
proof -
  have "\<forall>r\<in>set [0x20, 0x20, 0x20]. IsSpace r" by (simp add: IsSpace_def)
  moreover have "string_of_runes [0x20, 0x20, 0x20] = ''   ''"
    by (simp add: string_of_runes_def EncodeRune_def char_of_eq_iff)
  ultimately show ?thesis
    using C8_whitespace_insert_is_noop [of "[0x20, 0x20, 0x20]"] by simp
qed

lemma findClip_Some:
  "findClip x xs = Some i \<Longrightarrow> i < length xs \<and> remove1 x xs = take i xs @ drop (Suc i) xs"
  by (induction xs arbitrary: i) (auto split: if_splits)

lemma findClip_None: "findClip x xs = None \<Longrightarrow> remove1 x xs = xs"
  by (induction xs) (auto split: if_splits)

lemma slice_read_elems: "elems (abs_slice h s) = slice_read h s"
  by (cases s) (simp_all add: abs_slice_def)

lemma abs_slice_nonnil: "s \<noteq> NilRef \<Longrightarrow> abs_slice h s = Slice (slice_read h s)"
  by (cases s) (simp_all add: abs_slice_def)

lemma length_slice_read: "wf_slice h s \<Longrightarrow> length (slice_read h s) = slice_len s"
  by (cases s) auto

lemma write_at_read:
  assumes "off + i \<le> length arr"
  shows "take (i + length ys) (drop off (write_at arr (off + i) ys)) = take i (drop off arr) @ ys"
proof -
  let ?rest = "drop (off + i + length ys) arr"
  have "drop off (write_at arr (off + i) ys) = drop off (take (off + i) arr) @ ys @ ?rest"
    using assms by (simp add: write_at_def)
  also have "drop off (take (off + i) arr) = take i (drop off arr)"
    by (simp add: drop_take)
  finally have "drop off (write_at arr (off + i) ys) = (take i (drop off arr) @ ys) @ ?rest"
    by simp
  moreover have "length (take i (drop off arr) @ ys) = i + length ys"
    using assms by simp
  ultimately show ?thesis by (metis append_eq_conv_conj)
qed

lemma length_write_at:
  "pos + length xs \<le> length arr \<Longrightarrow> length (write_at arr pos xs) = length arr"
  by (simp add: write_at_def)

lemma take_of_longer_take:
  "take n xs = ys \<Longrightarrow> m \<le> n \<Longrightarrow> take m xs = take m ys"
  by (auto simp: min_def)

lemma removeExistingH_read:
  assumes "wf_slice h s" and "removeExistingH x s h = (s1, h1)"
  shows "slice_read h1 s1 = remove1 x (slice_read h s) \<and> wf_slice h1 s1 \<and> s1 \<noteq> NilRef = (s \<noteq> NilRef)"
proof (cases s)
  case NilRef
  with assms show ?thesis by (simp add: removeExistingH_def)
next
  case (Ref a off n c)
  let ?arr = "h ! a"
  let ?xs = "take n (drop off ?arr)"
  from assms(1) Ref have wf: "a < length h" "off + c \<le> length ?arr" "n \<le> c" by auto
  then have lxs: "length ?xs = n" by simp
  show ?thesis
  proof (cases "findClip x ?xs")
    case None
    then have "remove1 x ?xs = ?xs" by (rule findClip_None)
    moreover from None assms(2) Ref have "s1 = s" "h1 = h" by (simp_all add: removeExistingH_def)
    ultimately show ?thesis using Ref assms(1) by simp
  next
    case (Some i)
    from findClip_Some [OF Some] lxs
    have i: "i < n" and rem: "remove1 x ?xs = take i ?xs @ drop (Suc i) ?xs" by auto
    let ?ys = "take (n - (i + 1)) (drop (off + (i + 1)) ?arr)"
    have lys: "length ?ys = n - (i + 1)" using wf i by simp
    have fits: "i + length ?ys \<le> c" using wf i lys by simp
    have s1: "s1 = Ref a off (i + length ?ys) c"
      and h1: "h1 = h[a := write_at ?arr (off + i) ?ys]"
      using assms(2) Ref Some fits by (simp_all add: removeExistingH_def)
    have ys: "?ys = drop (Suc i) ?xs"
      by (simp add: drop_take add.commute add.left_commute)
    have "take (i + length ?ys) (drop off (write_at ?arr (off + i) ?ys)) = take i (drop off ?arr) @ ?ys"
      using wf i by (intro write_at_read) simp
    also have "take i (drop off ?arr) = take i ?xs" using i by (simp add: min_def)
    finally have "slice_read h1 s1 = take i ?xs @ drop (Suc i) ?xs"
      using s1 h1 wf ys by simp
    moreover have "length (write_at ?arr (off + i) ?ys) = length ?arr"
      using wf i lys by (intro length_write_at) simp
    then have "wf_slice h1 s1" using s1 h1 wf fits by simp
    ultimately show ?thesis using rem Ref s1 by simp
  qed
qed

lemma slice_read_append_heap: "wf_slice h s \<Longrightarrow> slice_read (h @ hs) s = slice_read h s"
  by (cases s) (auto simp: nth_append)

lemma wf_slice_append_heap: "wf_slice h s \<Longrightarrow> wf_slice (h @ hs) s"
  by (cases s) (auto simp: nth_append)

lemma addClipH_refines:
  assumes "wf_slice h (clipsH cm)" and "addClipH t cm h os = (cm', h', os')"
  shows "abs_manager h' cm' = fst (addClip t (abs_manager h cm) os)
         \<and> os' = snd (addClip t (abs_manager h cm) os)
         \<and> wf_slice h' (clipsH cm')"
proof (cases "TrimSpace t = [] \<or> TrimSpace t = lastContentH cm")
  case True
  with assms show ?thesis
    by (auto simp: addClipH_def addClip_def abs_manager_def Let_def)
next
  case False
  let ?c = "TrimSpace t"
  obtain s1 h1 where r: "removeExistingH ?c (clipsH cm) h = (s1, h1)"
    by (cases "removeExistingH ?c (clipsH cm) h")
  from removeExistingH_read [OF assms(1) r]
  have rd: "slice_read h1 s1 = remove1 ?c (slice_read h (clipsH cm))" and wf1: "wf_slice h1 s1"
    by auto
  let ?ys = "slice_read h1 s1"
  let ?h2 = "h1 @ [[?c]]"
  let ?lit = "Ref (length h1) 0 1 1"
  have rd2: "slice_read ?h2 s1 = ?ys" using wf1 by (rule slice_read_append_heap)
  obtain s2 h3 where ap0: "go_append ?lit (slice_read ?h2 s1) ?h2 = (s2, h3)"
    by (cases "go_append ?lit (slice_read ?h2 s1) ?h2")
  then have ap: "go_append ?lit ?ys ?h2 = (s2, h3)" by (simp only: rd2)
  have s2: "slice_read h3 s2 = ?c # ?ys \<and> wf_slice h3 s2 \<and> s2 \<noteq> NilRef \<and> slice_len s2 = Suc (length ?ys)"
  proof (cases "?ys = []")
    case True
    with ap show ?thesis by (auto simp: write_at_def)
  next
    case False
    then have "\<not> 1 + length ?ys \<le> 1" by simp
    with ap have "(s2, h3) = go_alloc (?c # ?ys) ?h2" by simp
    then show ?thesis by (auto simp: go_alloc_def nth_append)
  qed
  let ?s3 = "if slice_len s2 > maxClips then slice_to s2 maxClips else s2"
  have cm': "cm' = cm\<lparr>clipsH := ?s3, lastContentH := ?c\<rparr>" and h': "h' = h3"
    and os': "os' = saveClips (abs_manager h3 cm') os"
    using assms(2) False r ap0
    by (auto simp add: addClipH_def Let_def go_alloc_def simp del: go_append.simps)
  obtain a off n c where ref: "s2 = Ref a off n c" using s2 by (cases s2) auto
  have rd3: "slice_read h3 ?s3 = (if length (?c # ?ys) > maxClips then take maxClips (?c # ?ys) else ?c # ?ys)"
  proof (cases "slice_len s2 > maxClips")
    case True
    from s2 ref have "take n (drop off (h3 ! a)) = ?c # ?ys" and "maxClips \<le> n"
      using True by auto
    then have "take maxClips (drop off (h3 ! a)) = take maxClips (?c # ?ys)"
      by (rule take_of_longer_take)
    with True s2 ref show ?thesis by simp
  next
    case False
    with s2 show ?thesis by simp
  qed
  have wf3: "wf_slice h3 ?s3" using s2 ref by (auto simp: maxClips_def)
  have ne3: "?s3 \<noteq> NilRef" using ref by simp
  have abs: "abs_manager h' cm' = fst (addClip t (abs_manager h cm) os)"
    using False cm' h' rd3 rd abs_slice_nonnil [OF ne3, of h3]
    by (simp add: addClip_def abs_manager_def Let_def removeExisting_remove1 slice_read_elems)
  moreover have "os' = snd (addClip t (abs_manager h cm) os)"
    using False os' abs h' by (simp add: addClip_def Let_def abs_manager_def)
  ultimately show ?thesis using wf3 cm' h' by simp
qed


lemma heap_extends_alloc: "go_alloc xs h = (s, h') \<Longrightarrow> heap_extends h h'"
  by (auto simp: go_alloc_def heap_extends_def nth_append)

lemma heap_extends_trans: "heap_extends h h1 \<Longrightarrow> heap_extends h1 h2 \<Longrightarrow> heap_extends h h2"
  by (auto simp: heap_extends_def)

lemma heap_extends_read: "heap_extends h h' \<Longrightarrow> wf_slice h s \<Longrightarrow> slice_read h' s = slice_read h s"
  by (cases s) (auto simp: heap_extends_def)

lemma heap_extends_append_fresh:
  assumes "go_append (Ref (length h) 0 1 1) ys (h @ [[x]]) = (s, h')"
  shows "heap_extends h h'"
proof (cases "ys = []")
  case True
  with assms show ?thesis by (auto simp: heap_extends_def nth_append)
next
  case False
  then have "\<not> 1 + length ys \<le> 1" by simp
  with assms have "go_alloc (slice_read (h @ [[x]]) (Ref (length h) 0 1 1) @ ys) (h @ [[x]]) = (s, h')"
    by simp
  then have "heap_extends (h @ [[x]]) h'" by (rule heap_extends_alloc)
  then show ?thesis by (auto simp: heap_extends_def nth_append)
qed

lemma AddItemH_heap_extends:
  assumes "AddItemH t cm h = Inr (cm', h')"
  shows "heap_extends h h'"
proof -
  let ?c = "TrimSpace t"
  obtain s h2 where ap: "go_append (Ref (length h) 0 1 1) (slice_read (h @ [[?c]]) (historyH cm)) (h @ [[?c]]) = (s, h2)"
    by (cases "go_append (Ref (length h) 0 1 1) (slice_read (h @ [[?c]]) (historyH cm)) (h @ [[?c]])")
  then have ext: "heap_extends h h2" by (rule heap_extends_append_fresh)
  have "h' = h \<or> h' = h2"
    using assms ap
    by (auto simp add: AddItemH_def Let_def go_alloc_def split: if_splits simp del: go_append.simps)
  with ext show ?thesis by (auto simp: heap_extends_def)
qed

lemma GetHistoryH_copy:
  assumes "wf_slice h (historyH cm)" and "GetHistoryH cm h = (snap, h1)"
  shows "slice_read h1 snap = slice_read h (historyH cm) \<and> wf_slice h1 snap \<and> heap_extends h h1"
proof -
  let ?n = "slice_len (historyH cm)"
  let ?xs = "slice_read h (historyH cm)"
  have len: "length ?xs = ?n" using assms(1) by (rule length_slice_read)
  have rd: "slice_read (h @ [replicate ?n []]) (historyH cm) = ?xs"
    using assms(1) by (rule slice_read_append_heap)
  have snap: "snap = Ref (length h) 0 ?n ?n"
    and h1: "h1 = (h @ [replicate ?n []])[length h := write_at (replicate ?n []) 0 (take ?n ?xs)]"
    using assms(2) rd by (auto simp: GetHistoryH_def go_make_def go_copy_def Let_def)
  have "write_at (replicate ?n []) 0 (take ?n ?xs) = ?xs"
    using len by (simp add: write_at_def)
  with h1 have h1': "h1 = h @ [?xs]" by simp
  show ?thesis using snap h1' len by (auto simp: heap_extends_def nth_append)
qed

lemma GetHistoryH_independent:
  assumes "wf_slice h (historyH cm)" and "GetHistoryH cm h = (snap, h1)"
    and "AddItemH t cm h1 = Inr (cm', h2)"
  shows "slice_read h2 snap = slice_read h (historyH cm)"
proof -
  from GetHistoryH_copy [OF assms(1,2)]
  have "slice_read h1 snap = slice_read h (historyH cm)" and "wf_slice h1 snap" by auto
  moreover from assms(3) have "heap_extends h1 h2" by (rule AddItemH_heap_extends)
  ultimately show ?thesis by (simp add: heap_extends_read)
qed


text \<open>
  Claim C6 says that the snapshot is an independent copy: a later insert or clear does
  not change the sequence that the snapshot returned. \<^verbatim>\<open>GetHistory\<close> of the in-memory
  manager is such a copy (lemma \<open>GetHistoryH_independent\<close>). \<^verbatim>\<open>getClips\<close> of the
  persistent manager is not: it returns the slice of the field, and the removal step of
  \<^verbatim>\<open>addClip\<close> writes into the array they share. After the inserts a, b, c the
  snapshot reads c, b, a; after a further insert of b the same slice value reads c, a, a,
  while the store holds b, c, a.
\<close>

theorem C6_getClips_snapshot_changed_by_addClip:
  "(case emptyManagerH ''f'' [] of (cm0, h0) \<Rightarrow>
    case addClipH ''a'' cm0 h0 \<lparr>files = Map.empty, unwritable = {}, pasteboard = []\<rparr> of
      (cm1, h1, os1) \<Rightarrow>
    case addClipH ''b'' cm1 h1 os1 of (cm2, h2, os2) \<Rightarrow>
    case addClipH ''c'' cm2 h2 os2 of (cm3, h3, os3) \<Rightarrow>
    case addClipH ''b'' cm3 h3 os3 of (cm4, h4, os4) \<Rightarrow>
      slice_read h3 (getClipsH cm3) = [''c'', ''b'', ''a'']
      \<and> slice_read h4 (getClipsH cm3) = [''c'', ''a'', ''a'']
      \<and> slice_read h4 (getClipsH cm3) \<noteq> slice_read h3 (getClipsH cm3)
      \<and> slice_read h4 (getClipsH cm4) = [''b'', ''c'', ''a''])"
  by (simp add: emptyManagerH_def addClipH_def go_make_def go_alloc_def removeExistingH_def
      Let_def maxClips_def getClipsH_def write_at_def nth_append)

subsection \<open>UTF-8: decoding and encoding are inverse on valid sequences\<close>

lemma char_of_byte: "n < 256 \<Longrightarrow> char_of n = c \<longleftrightarrow> n = (of_char c :: nat)"
  by (simp add: char_of_eq_iff take_bit_eq_mod)

lemma div_mod_64: "b < 64 \<Longrightarrow> (a * 64 + b) div 64 = a \<and> (a * 64 + b) mod 64 = (b::nat)"
  by simp

lemma enc2:
  assumes "2 \<le> x" "x < 32" "y < 64"
  shows "EncodeRune (x * 64 + y) = [char_of (192 + x), char_of (128 + y)]"
proof -
  have "\<not> x * 64 + y \<le> 0x7F" "x * 64 + y \<le> 0x7FF" using assms by linarith+
  moreover have "(x * 64 + y) div 64 = x" "(x * 64 + y) mod 64 = y" using assms by auto
  ultimately show ?thesis by (simp add: EncodeRune_def)
qed

lemma enc3:
  assumes "x < 16" "y < 64" "z < 64" "x = 0 \<longrightarrow> 32 \<le> y" "x = 13 \<longrightarrow> y < 32"
    and r: "r = (x * 64 + y) * 64 + z"
  shows "EncodeRune r = [char_of (224 + x), char_of (128 + y), char_of (128 + z)]"
proof -
  have r': "r = 4096 * x + 64 * y + z" using r by simp
  have lo: "2048 \<le> r"
  proof (cases "x = 0")
    case True
    with assms(4) r' show ?thesis by linarith
  next
    case False
    with r' show ?thesis by linarith
  qed
  have hi: "r \<le> 65535" using r' assms(1,2,3) by linarith
  have sur: "\<not> (0xD800 \<le> r \<and> r \<le> 0xDFFF)"
  proof -
    consider "x = 13" | "x \<le> 12" | "14 \<le> x" by linarith
    then show ?thesis
    proof cases
      case 1
      with assms(5) have "y < 32" by simp
      with 1 r' assms(3) have "r < 55296" by linarith
      then show ?thesis by simp
    next
      case 2
      with r' assms(2,3) have "r < 55296" by linarith
      then show ?thesis by simp
    next
      case 3
      with r' have "57343 < r" by linarith
      then show ?thesis by simp
    qed
  qed
  have d64: "r div 64 = x * 64 + y" and m64: "r mod 64 = z"
    using div_mod_64 [of z "x * 64 + y"] assms(3) r by simp_all
  have "r div 4096 = r div 64 div 64" by (simp add: div_mult2_eq)
  then have d4096: "r div 4096 = x" using d64 div_mod_64 [of y x] assms(2) by simp
  have dm: "(r div 64) mod 64 = y" using d64 div_mod_64 [of y x] assms(2) by simp
  show ?thesis
    using lo hi sur by (auto simp add: EncodeRune_def d4096 dm m64)
qed


lemma enc4:
  assumes "x \<le> 4" "y < 64" "z < 64" "u < 64" "x = 0 \<longrightarrow> 16 \<le> y" "x = 4 \<longrightarrow> y < 16"
    and r: "r = ((x * 64 + y) * 64 + z) * 64 + u"
  shows "EncodeRune r = [char_of (240 + x), char_of (128 + y), char_of (128 + z), char_of (128 + u)]"
proof -
  have r': "r = 262144 * x + 4096 * y + 64 * z + u" using r by simp
  have lo: "65536 \<le> r"
  proof (cases "x = 0")
    case True
    with assms(5) r' show ?thesis by linarith
  next
    case False
    with r' show ?thesis by linarith
  qed
  have hi: "r \<le> 1114111"
  proof (cases "x = 4")
    case True
    with assms(6) have "y < 16" by simp
    with True r' assms(3,4) show ?thesis by linarith
  next
    case False
    with assms(1) have "x \<le> 3" by linarith
    with r' assms(2,3,4) show ?thesis by linarith
  qed
  have d64: "r div 64 = (x * 64 + y) * 64 + z" and m64: "r mod 64 = u"
    using div_mod_64 [of u "(x * 64 + y) * 64 + z"] assms(4) r by simp_all
  have "r div 4096 = r div 64 div 64" by (simp add: div_mult2_eq)
  then have d4096: "r div 4096 = x * 64 + y"
    using d64 div_mod_64 [of z "x * 64 + y"] assms(3) by simp
  have dm64: "(r div 64) mod 64 = z"
    using d64 div_mod_64 [of z "x * 64 + y"] assms(3) by simp
  have dm4096: "(r div 4096) mod 64 = y"
    using d4096 div_mod_64 [of y x] assms(2) by simp
  have "r div 262144 = r div 4096 div 64" by (simp add: div_mult2_eq)
  then have d262144: "r div 262144 = x" using d4096 div_mod_64 [of y x] assms(2) by simp
  show ?thesis
    using lo hi by (auto simp add: EncodeRune_def d262144 dm4096 dm64 m64)
qed


lemma mod_off: "x < m \<Longrightarrow> (q * m + x) mod m = (x::nat)"
  by simp

lemma byte_mods:
  fixes x :: nat
  shows "x < 32 \<Longrightarrow> (192 + x) mod 32 = x"
    and "x < 16 \<Longrightarrow> (224 + x) mod 16 = x"
    and "x < 8 \<Longrightarrow> (240 + x) mod 8 = x"
    and "x < 64 \<Longrightarrow> (128 + x) mod 64 = x"
  using mod_off [of x 32 6] mod_off [of x 16 14] mod_off [of x 8 30] mod_off [of x 64 2]
  by simp_all

lemma of_char_char_of_small: "n < 256 \<Longrightarrow> (of_char (char_of n :: char) :: nat) = n"
  by simp

lemma DecodeRune_two:
  assumes "2 \<le> x" "x < 32" "y < 64"
  shows "DecodeRune (char_of (192 + x) # char_of (128 + y) # rest) = (x * 64 + y, 2)"
proof -
  have a: "(of_char (char_of (192 + x) :: char) :: nat) = 192 + x"
       "(of_char (char_of (128 + y) :: char) :: nat) = 128 + y"
    using assms by (simp_all add: of_char_char_of_small)
  have f: "first (192 + x) = SZ 2 0x80 0xBF" using assms by (simp add: first_def)
  show ?thesis using assms by (simp add: a f Let_def byte_mods)
qed

lemma DecodeRune_three:
  assumes "x < 16" "y < 64" "z < 64" "x = 0 \<longrightarrow> 32 \<le> y" "x = 13 \<longrightarrow> y < 32"
  shows "DecodeRune (char_of (224 + x) # char_of (128 + y) # char_of (128 + z) # rest)
           = ((x * 64 + y) * 64 + z, 3)"
proof -
  have a: "(of_char (char_of (224 + x) :: char) :: nat) = 224 + x"
       "(of_char (char_of (128 + y) :: char) :: nat) = 128 + y"
       "(of_char (char_of (128 + z) :: char) :: nat) = 128 + z"
    using assms by (simp_all add: of_char_char_of_small)
  have f: "first (224 + x) = SZ 3 (if x = 0 then 0xA0 else 0x80) (if x = 13 then 0x9F else 0xBF)"
    using assms(1) by (simp add: first_def)
  show ?thesis using assms by (auto simp add: a f Let_def byte_mods locb_def hicb_def)
qed

lemma DecodeRune_four:
  assumes "x \<le> 4" "y < 64" "z < 64" "u < 64" "x = 0 \<longrightarrow> 16 \<le> y" "x = 4 \<longrightarrow> y < 16"
  shows "DecodeRune (char_of (240 + x) # char_of (128 + y) # char_of (128 + z) # char_of (128 + u) # rest)
           = (((x * 64 + y) * 64 + z) * 64 + u, 4)"
proof -
  have a: "(of_char (char_of (240 + x) :: char) :: nat) = 240 + x"
       "(of_char (char_of (128 + y) :: char) :: nat) = 128 + y"
       "(of_char (char_of (128 + z) :: char) :: nat) = 128 + z"
       "(of_char (char_of (128 + u) :: char) :: nat) = 128 + u"
    using assms by (simp_all add: of_char_char_of_small)
  have f: "first (240 + x) = SZ 4 (if x = 0 then 0x90 else 0x80) (if x = 4 then 0x8F else 0xBF)"
    using assms(1) by (simp add: first_def)
  have x8: "x < 8" using assms(1) by simp
  show ?thesis using assms by (auto simp add: a f Let_def byte_mods x8 locb_def hicb_def)
qed


text \<open>The shapes of the input on which DecodeRune does not answer (RuneError, 1).\<close>

lemma DecodeRune_validE:
  assumes dec: "DecodeRune s = (r, w)" and ne: "s \<noteq> []" and ok: "(r, w) \<noteq> (RuneError, 1)"
  obtains
    (one) c rest where "s = c # rest" "(of_char c :: nat) < 128" "r = of_char c" "w = 1"
  | (two) x y rest where "s = char_of (192 + x) # char_of (128 + y) # rest"
      "2 \<le> x" "x < 32" "y < 64" "r = x * 64 + y" "w = 2"
  | (three) x y z rest where
      "s = char_of (224 + x) # char_of (128 + y) # char_of (128 + z) # rest"
      "x < 16" "y < 64" "z < 64" "x = 0 \<longrightarrow> 32 \<le> y" "x = 13 \<longrightarrow> y < 32"
      "r = (x * 64 + y) * 64 + z" "w = 3"
  | (four) x y z u rest where
      "s = char_of (240 + x) # char_of (128 + y) # char_of (128 + z) # char_of (128 + u) # rest"
      "x \<le> 4" "y < 64" "z < 64" "u < 64" "x = 0 \<longrightarrow> 16 \<le> y" "x = 4 \<longrightarrow> y < 16"
      "r = ((x * 64 + y) * 64 + z) * 64 + u" "w = 4"
proof -
  from ne obtain c0 p where s: "s = c0 # p" by (cases s) auto
  define p0 :: nat where "p0 = of_char c0"
  have p0: "p0 < 256" by (simp add: p0_def)
  have c0: "char_of p0 = c0" by (simp add: p0_def)
  note d = dec [unfolded s DecodeRune.simps Let_def, folded p0_def]
  show thesis
  proof (cases "first p0")
    case AS
    then have "p0 < 128" by (auto simp: first_def split: if_splits)
    moreover from d AS have "r = p0" "w = 1" by simp_all
    ultimately show thesis using one [of c0 p] s by (simp add: p0_def)
  next
    case XX
    with d ok show thesis by simp
  next
    case (SZ sz lo hi)
    with d ok have len: "\<not> length (c0 # p) < sz" by (auto split: if_splits)
    from SZ have sz: "sz = 2 \<or> sz = 3 \<or> sz = 4" by (auto simp: first_def split: if_splits)
    then obtain c1 p1 where p: "p = c1 # p1" using len by (cases p) auto
    define b1 :: nat where "b1 = of_char c1"
    have c1: "char_of b1 = c1" by (simp add: b1_def)
    from d SZ ok len p have b1: "lo \<le> b1" "b1 \<le> hi"
      by (auto simp: b1_def split: if_splits)
    from SZ have range: "128 \<le> lo" "hi \<le> 191" by (auto simp: first_def split: if_splits)
    define y where "y = b1 - 128"
    have y: "y < 64" "b1 = 128 + y" using b1 range by (auto simp: y_def)
    have b1m: "b1 mod 64 = y" using y byte_mods(4) [of y] by simp
    show thesis
    proof (cases "sz = 2")
      case True
      with SZ have r0: "194 \<le> p0" "p0 < 224" by (auto simp: first_def split: if_splits)
      define x where "x = p0 - 192"
      have x: "2 \<le> x" "x < 32" "p0 = 192 + x" using r0 by (auto simp: x_def)
      have p0m: "p0 mod 32 = x" using x byte_mods(1) [of x] by simp
      from d SZ True len p b1 have "r = p0 mod 32 * 64 + b1 mod 64" "w = 2"
        by (auto simp: b1_def split: if_splits)
      then have "r = x * 64 + y" "w = 2" by (simp_all add: p0m b1m)
      moreover have "s = char_of (192 + x) # char_of (128 + y) # p1"
        using s p c0 c1 x(3) y(2) by simp
      ultimately show thesis using two x(1,2) y(1) by blast
    next
      case False
      with sz len p obtain c2 p2 where p1: "p1 = c2 # p2" by (cases p1) auto
      define b2 :: nat where "b2 = of_char c2"
      have c2: "char_of b2 = c2" by (simp add: b2_def)
      from d SZ ok len p p1 False b1 sz have b2: "128 \<le> b2" "b2 \<le> 191"
        by (auto simp: b1_def b2_def locb_def hicb_def split: if_splits)
      define z where "z = b2 - 128"
      have z: "z < 64" "b2 = 128 + z" using b2 by (auto simp: z_def)
      have b2m: "b2 mod 64 = z" using z byte_mods(4) [of z] by simp
      show thesis
      proof (cases "sz = 3")
        case True
        with SZ have r0: "224 \<le> p0" "p0 < 240"
          and lohi: "lo = (if p0 = 224 then 160 else 128)" "hi = (if p0 = 237 then 159 else 191)"
          by (auto simp: first_def split: if_splits)
        define x where "x = p0 - 224"
        have x: "x < 16" "p0 = 224 + x" using r0 by (auto simp: x_def)
        have p0m: "p0 mod 16 = x" using x byte_mods(2) [of x] by simp
        have c: "x = 0 \<longrightarrow> 32 \<le> y" "x = 13 \<longrightarrow> y < 32"
          using b1 lohi x y by (auto split: if_splits)
        from d SZ True len p p1 b1 b2 sz have "r = p0 mod 16 * 4096 + b1 mod 64 * 64 + b2 mod 64" "w = 3"
          by (auto simp: b1_def b2_def locb_def hicb_def split: if_splits)
        then have "r = (x * 64 + y) * 64 + z" "w = 3" by (simp_all add: p0m b1m b2m)
        moreover have "s = char_of (224 + x) # char_of (128 + y) # char_of (128 + z) # p2"
          using s p p1 c0 c1 c2 x(2) y(2) z(2) by simp
        ultimately show thesis using three x(1) y(1) z(1) c by blast
      next
        case sz3: False
        with False sz have sz4: "sz = 4" by simp
        with len p p1 obtain c3 p3 where p2: "p2 = c3 # p3" by (cases p2) auto
        define b3 :: nat where "b3 = of_char c3"
        have c3: "char_of b3 = c3" by (simp add: b3_def)
        from d SZ ok len p p1 p2 sz4 b1 b2 sz have b3: "128 \<le> b3" "b3 \<le> 191"
          by (auto simp: b1_def b2_def b3_def locb_def hicb_def split: if_splits)
        define u where "u = b3 - 128"
        have u: "u < 64" "b3 = 128 + u" using b3 by (auto simp: u_def)
        have b3m: "b3 mod 64 = u" using u byte_mods(4) [of u] by simp
        from SZ sz4 have r0: "240 \<le> p0" "p0 \<le> 244"
          and lohi: "lo = (if p0 = 240 then 144 else 128)" "hi = (if p0 = 244 then 143 else 191)"
          by (auto simp: first_def split: if_splits)
        define x where "x = p0 - 240"
        have x: "x \<le> 4" "p0 = 240 + x" using r0 by (auto simp: x_def)
        have p0m: "p0 mod 8 = x" using x byte_mods(3) [of x] by simp
        have c: "x = 0 \<longrightarrow> 16 \<le> y" "x = 4 \<longrightarrow> y < 16"
          using b1 lohi x y by (auto split: if_splits)
        from d SZ sz4 len p p1 p2 b1 b2 b3
        have "r = p0 mod 8 * 262144 + b1 mod 64 * 4096 + b2 mod 64 * 64 + b3 mod 64" "w = 4"
          by (auto simp: b1_def b2_def b3_def locb_def hicb_def split: if_splits)
        then have "r = ((x * 64 + y) * 64 + z) * 64 + u" "w = 4"
          by (simp_all add: p0m b1m b2m b3m)
        moreover have "s = char_of (240 + x) # char_of (128 + y) # char_of (128 + z) # char_of (128 + u) # p3"
          using s p p1 p2 c0 c1 c2 c3 x(2) y(2) z(2) u(2) by simp
        ultimately show thesis using four x(1) y(1) z(1) u(1) c by blast
      qed
    qed
  qed
qed

lemma EncodeRune_DecodeRune:
  assumes "DecodeRune s = (r, w)" and "s \<noteq> []" and "(r, w) \<noteq> (RuneError, 1)"
  shows "EncodeRune r = take w s"
  using assms
proof (cases rule: DecodeRune_validE)
  case (one c rest)
  then show ?thesis by (simp add: EncodeRune_def)
next
  case (two x y rest)
  then show ?thesis by (simp add: enc2)
next
  case (three x y z rest)
  then show ?thesis using enc3 [of x y z r] by simp
next
  case (four x y z u rest)
  then show ?thesis using enc4 [of x y z u r] by simp
qed

lemma DecodeRune_prefix:
  assumes "DecodeRune s = (r, w)" and "s \<noteq> []" and "(r, w) \<noteq> (RuneError, 1)"
  shows "DecodeRune (take w s @ rest) = (r, w)"
  using assms
proof (cases rule: DecodeRune_validE)
  case (one c rest')
  then show ?thesis by (simp add: first_def Let_def)
next
  case (two x y rest')
  then show ?thesis using DecodeRune_two [of x y rest] by (simp del: DecodeRune.simps)
next
  case (three x y z rest')
  then show ?thesis using DecodeRune_three [of x y z rest] by (simp del: DecodeRune.simps)
next
  case (four x y z u rest')
  then show ?thesis using DecodeRune_four [of x y z u rest] by (simp del: DecodeRune.simps)
qed

lemma DecodeRune_multibyte:
  assumes "DecodeRune s = (r, w)" and "s \<noteq> []" and "(r, w) \<noteq> (RuneError, 1)" and "2 \<le> w"
  shows "\<forall>c\<in>set (take w s). (128::nat) \<le> of_char c"
  using assms
proof (cases rule: DecodeRune_validE)
  case (one c rest')
  with assms(4) show ?thesis by simp
next
  case (two x y rest')
  then show ?thesis by (simp add: of_char_char_of_small)
next
  case (three x y z rest')
  then show ?thesis by (simp add: of_char_char_of_small)
next
  case (four x y z u rest')
  then show ?thesis by (simp add: of_char_char_of_small)
qed

lemma DecodeRune_one:
  assumes "DecodeRune s = (r, 1)" and "s \<noteq> []" and "r \<noteq> RuneError"
  shows "(of_char (hd s) :: nat) < 128 \<and> r = of_char (hd s)"
  using assms(1,2)
proof (cases rule: DecodeRune_validE)
  show "(r, 1) \<noteq> (RuneError, 1)" using assms(3) by simp
qed simp_all

lemma DecodeRune_ascii: "(of_char c :: nat) < 128 \<Longrightarrow> DecodeRune (c # rest) = (of_char c, 1)"
  by (simp add: first_def Let_def)

lemma DecodeRune_high_width:
  assumes "DecodeRune s = (r, w)" and "s \<noteq> []" and "(r, w) \<noteq> (RuneError, 1)"
    and "(128::nat) \<le> of_char (hd s)"
  shows "2 \<le> w"
  using assms by (cases rule: DecodeRune_validE) auto

subsection \<open>Unquoting\<close>

lemma emit_Some [simp]: "emit bs (Some t) = Some (bs @ t)"
  by (simp add: emit_def)

lemma emit_emit: "emit a (emit b x) = emit (a @ b) x"
  by (cases x) (simp_all add: emit_def)

lemma emit_Nil [simp]: "emit [] x = x"
  by (cases x) (simp_all add: emit_def)

lemma unquote_loop_Nil [simp]: "unquote_loop [] = Some []"
  by (simp add: unquote_loop.simps)

lemma unquote_loop_plain:
  assumes "c \<noteq> CHR 0x5C" "c \<noteq> CHR 0x22" "(32::nat) \<le> of_char c" "(of_char c :: nat) < 128"
  shows "unquote_loop (c # rest) = emit [c] (unquote_loop rest)"
  using assms by (subst unquote_loop.simps) (simp add: RuneSelf_def)

lemma unquote_loop_rune:
  assumes "DecodeRune s = (r, w)" and "s \<noteq> []" and "(r, w) \<noteq> (RuneError, 1)"
    and "(128::nat) \<le> of_char (hd s)"
  shows "unquote_loop s = emit (take w s) (unquote_loop (drop w s))"
proof -
  have "hd s \<noteq> CHR 0x5C" "hd s \<noteq> CHR 0x22" using assms(4) by auto
  moreover have "\<not> (of_char (hd s) :: nat) < 32" "\<not> (of_char (hd s) :: nat) < RuneSelf"
    using assms(4) by (simp_all add: RuneSelf_def)
  moreover have "EncodeRune r = take w s" using assms(1,2,3) by (rule EncodeRune_DecodeRune)
  ultimately show ?thesis using assms(1,2) by (subst unquote_loop.simps) simp
qed

lemma unquote_loop_invalid:
  assumes "DecodeRune s = (RuneError, 1)" and "s \<noteq> []" and "(128::nat) \<le> of_char (hd s)"
  shows "unquote_loop s = emit (EncodeRune RuneError) (unquote_loop (tl s))"
proof -
  have "hd s \<noteq> CHR 0x5C" "hd s \<noteq> CHR 0x22" using assms(3) by auto
  moreover have "\<not> (of_char (hd s) :: nat) < 32" "\<not> (of_char (hd s) :: nat) < RuneSelf"
    using assms(3) by (simp_all add: RuneSelf_def)
  ultimately show ?thesis using assms(1,2) by (subst unquote_loop.simps) (simp add: drop_Suc)
qed

lemma unquote_loop_unusualAt:
  "unquote_loop s = emit (take (unusualAt s) s) (unquote_loop (drop (unusualAt s) s))"
proof (induction s rule: unusualAt.induct)
  case (1 s)
  show ?case
  proof (cases "s = []")
    case True
    then show ?thesis by (simp add: unusualAt.simps)
  next
    case ne: False
    let ?c = "hd s"
    from ne have s: "s = ?c # tl s" by simp
    show ?thesis
    proof (cases "?c = CHR 0x5C \<or> ?c = CHR 0x22 \<or> (of_char ?c :: nat) < 0x20")
      case True
      with ne have "unusualAt s = 0" by (subst unusualAt.simps) (simp add: Let_def)
      then show ?thesis by simp
    next
      case usual: False
      show ?thesis
      proof (cases "(of_char ?c :: nat) < RuneSelf")
        case True
        with ne usual have u: "unusualAt s = 1 + unusualAt (tl s)"
          by (subst unusualAt.simps) (simp add: Let_def)
        have ih: "unquote_loop (tl s)
                = emit (take (unusualAt (tl s)) (tl s)) (unquote_loop (drop (unusualAt (tl s)) (tl s)))"
          using 1(1) ne usual True by simp
        have "unquote_loop s = emit [?c] (unquote_loop (tl s))"
          using usual True unquote_loop_plain [of ?c "tl s"] s by (simp add: RuneSelf_def)
        also have "\<dots> = emit ([?c] @ take (unusualAt (tl s)) (tl s))
                          (unquote_loop (drop (unusualAt (tl s)) (tl s)))"
          by (subst ih) (simp only: emit_emit)
        also have "[?c] @ take (unusualAt (tl s)) (tl s) = take (unusualAt s) s"
          using u ne by (cases s) simp_all
        also have "drop (unusualAt (tl s)) (tl s) = drop (unusualAt s) s"
          using u ne by (cases s) simp_all
        finally show ?thesis .
      next
        case high: False
        obtain rr w where d: "DecodeRune s = (rr, w)" by (cases "DecodeRune s")
        show ?thesis
        proof (cases "rr = RuneError \<and> w = 1")
          case True
          with ne usual high d have "unusualAt s = 0"
            by (subst unusualAt.simps) (simp add: Let_def)
          then show ?thesis by simp
        next
          case False
          with ne usual high d have u: "unusualAt s = w + unusualAt (drop w s)"
            by (subst unusualAt.simps) (simp add: Let_def)
          have ih: "unquote_loop (drop w s)
                = emit (take (unusualAt (drop w s)) (drop w s))
                    (unquote_loop (drop (unusualAt (drop w s)) (drop w s)))"
            using 1(2) [OF ne refl _ high d [symmetric] refl] usual False by simp
          have w: "w \<le> length s" using d by (rule DecodeRune_size_le)
          have "unquote_loop s = emit (take w s) (unquote_loop (drop w s))"
            using d ne False high by (intro unquote_loop_rune) (simp_all add: RuneSelf_def)
          also have "\<dots> = emit (take w s @ take (unusualAt (drop w s)) (drop w s))
                            (unquote_loop (drop (unusualAt (drop w s)) (drop w s)))"
            by (subst ih) (simp only: emit_emit)
          also have "take w s @ take (unusualAt (drop w s)) (drop w s) = take (unusualAt s) s"
            using u by (simp add: take_add)
          also have "drop (unusualAt (drop w s)) (drop w s) = drop (unusualAt s) s"
            using u by (simp add: add.commute)
          finally show ?thesis .
        qed
      qed
    qed
  qed
qed

lemma unquoteBytes_loop: "unquoteBytes s = unquote_loop s"
proof (cases "unusualAt s = length s")
  case True
  then have "unquote_loop s = Some s"
    using unquote_loop_unusualAt [of s] by simp
  with True show ?thesis by (simp add: unquoteBytes_def)
next
  case False
  then show ?thesis
    using unquote_loop_unusualAt [of s] by (simp add: unquoteBytes_def Let_def)
qed

subsection \<open>Unquoting the items of a literal\<close>


lemma wf_Plain_cases:
  assumes "wf_item (Plain bs)"
  obtains (ascii) c where "bs = [c]" "c \<noteq> CHR 0x22" "c \<noteq> CHR 0x5C" "(32::nat) \<le> of_char c"
      "(of_char c :: nat) < 128"
  | (multi) r where "DecodeRune bs = (r, length bs)" "2 \<le> length bs"
      "(r, length bs) \<noteq> (RuneError, 1)" "\<forall>c\<in>set bs. (128::nat) \<le> of_char c"
proof -
  obtain r w where d: "DecodeRune bs = (r, w)" by (cases "DecodeRune bs")
  from assms d have ne: "bs \<noteq> []" and ok: "(r, w) \<noteq> (RuneError, 1)" and w: "w = length bs"
    and hd: "hd bs \<noteq> CHR 0x22" "hd bs \<noteq> CHR 0x5C" "(32::nat) \<le> of_char (hd bs)"
    by auto
  show thesis
  proof (cases "w = 1")
    case True
    with w ne obtain c where bs: "bs = [c]" by (cases bs) auto
    from d True ok have "r \<noteq> RuneError" by simp
    with d True ne have "(of_char (hd bs) :: nat) < 128"
      using DecodeRune_one [of bs r] by simp
    with bs hd show thesis using ascii by simp
  next
    case False
    from DecodeRune_size_pos [OF ne d] False have w2: "2 \<le> w" by simp
    from DecodeRune_multibyte [OF d ne ok w2] w have "\<forall>c\<in>set bs. (128::nat) \<le> of_char c" by simp
    with d w w2 ok show thesis using multi by simp
  qed
qed

lemma unquote_loop_Plain:
  assumes "wf_item (Plain bs)"
  shows "unquote_loop (bs @ rest) = emit bs (unquote_loop rest)"
  using assms
proof (cases rule: wf_Plain_cases)
  case (ascii c)
  then show ?thesis using unquote_loop_plain [of c rest] by simp
next
  case (multi r)
  from multi(2) have ne: "bs \<noteq> []" by auto
  have d: "DecodeRune (bs @ rest) = (r, length bs)"
    using DecodeRune_prefix [OF multi(1) ne multi(3), of rest] by simp
  have hd: "(128::nat) \<le> of_char (hd (bs @ rest))" using multi(4) ne by (cases bs) auto
  from unquote_loop_rune [OF d _ multi(3) hd] ne show ?thesis by simp
qed

lemma unquote_loop_Escape:
  assumes "wf_item (Escape e)"
  shows "unquote_loop (render_item (Escape e) @ rest) = emit (denote_item (Escape e)) (unquote_loop rest)"
proof -
  from assms have "e \<in> {CHR 0x22, CHR 0x5C, CHR ''/'', CHR ''b'', CHR ''f'', CHR ''n'', CHR ''r'', CHR ''t''}"
    by (auto simp: simpleEscapes_def split: if_splits)
  then show ?thesis
    by (subst unquote_loop.simps) (auto simp: simpleEscapes_def)
qed

lemma getu4_escape:
  "length hs = 4 \<Longrightarrow> getu4 (CHR 0x5C # CHR ''u'' # hs @ rest) = hexDigits 0 hs"
  by (simp add: getu4_def)

lemma unquote_loop_Unicode:
  assumes "wf_item (Unicode hs)"
  shows "unquote_loop (render_item (Unicode hs) @ rest) = emit (denote_item (Unicode hs)) (unquote_loop rest)"
proof -
  from assms obtain r where len: "length hs = 4" and r: "hexDigits 0 hs = Some r"
    and ns: "\<not> utf16_IsSurrogate r"
    by (auto split: option.splits)
  have g: "getu4 (CHR 0x5C # CHR ''u'' # hs @ rest) = Some r"
    using len r by (simp add: getu4_escape)
  have dr: "drop 6 (CHR 0x5C # CHR ''u'' # hs @ rest) = rest"
    using len by (simp add: drop_Suc_Cons numeral_eq_Suc)
  show ?thesis
    using g ns r dr by (subst unquote_loop.simps) (simp add: Let_def)
qed

lemma unquote_loop_Pair:
  assumes "wf_item (Pair hi lo)"
  shows "unquote_loop (render_item (Pair hi lo) @ rest) = emit (denote_item (Pair hi lo)) (unquote_loop rest)"
proof -
  from assms obtain r1 r2 where len: "length hi = 4" "length lo = 4"
    and r: "hexDigits 0 hi = Some r1" "hexDigits 0 lo = Some r2"
    and rg: "0xD800 \<le> r1" "r1 < 0xDC00" "0xDC00 \<le> r2" "r2 < 0xE000"
    by (auto split: option.splits)
  let ?s = "CHR 0x5C # CHR ''u'' # hi @ CHR 0x5C # CHR ''u'' # lo @ rest"
  have g1: "getu4 ?s = Some r1"
    using len r getu4_escape [of hi "CHR 0x5C # CHR ''u'' # lo @ rest"] by simp
  have d6: "drop 6 ?s = CHR 0x5C # CHR ''u'' # lo @ rest"
    using len by (simp add: drop_Suc_Cons numeral_eq_Suc)
  have g2: "getu4 (drop 6 ?s) = Some r2"
    using len r d6 getu4_escape [of lo rest] by simp
  have d12: "drop 12 ?s = rest"
  proof -
    have "drop 6 (drop 6 ?s) = drop 12 ?s" unfolding drop_drop by simp
    moreover have "drop 6 (drop 6 ?s) = rest"
      unfolding d6 using len by (simp add: drop_Suc_Cons numeral_eq_Suc)
    ultimately show ?thesis by simp
  qed
  have sur: "utf16_IsSurrogate r1" using rg by (simp add: utf16_IsSurrogate_def)
  let ?dec = "(r1 - 0xD800) * 1024 + (r2 - 0xDC00) + 0x10000"
  have dec: "utf16_DecodeRune r1 (Some r2) = ?dec" using rg by (simp add: utf16_DecodeRune_def)
  have nerr: "?dec \<noteq> RuneError" by (simp add: RuneError_def)
  have den: "denote_item (Pair hi lo) = EncodeRune ?dec"
    using r by (simp add: add.commute add.left_commute)
  have "unquote_loop ?s = emit (EncodeRune ?dec) (unquote_loop (drop 12 ?s))"
    using g1 g2 sur dec nerr by (subst unquote_loop.simps) (simp add: Let_def)
  then show ?thesis using den d12 by simp
qed

lemma unquote_loop_item:
  "wf_item it \<Longrightarrow> unquote_loop (render_item it @ rest) = emit (denote_item it) (unquote_loop rest)"
  using unquote_loop_Plain unquote_loop_Escape unquote_loop_Unicode unquote_loop_Pair
  by (cases it) simp_all

lemma unquote_loop_items:
  "list_all wf_item items \<Longrightarrow>
     unquote_loop (concat (map render_item items) @ rest) = emit (literal_value items) (unquote_loop rest)"
proof (induction items)
  case Nil
  then show ?case by (simp add: literal_value_def)
next
  case (Cons it items)
  then have "unquote_loop (render_item it @ concat (map render_item items) @ rest)
      = emit (denote_item it) (emit (literal_value items) (unquote_loop rest))"
    by (simp add: unquote_loop_item)
  then show ?case by (simp add: emit_emit literal_value_def)
qed

lemma unquoteBytes_items:
  "list_all wf_item items \<Longrightarrow> unquoteBytes (concat (map render_item items)) = Some (literal_value items)"
  using unquote_loop_items [of items "[]"] by (simp add: unquoteBytes_loop)

subsection \<open>The decoder on the text of an array of strings\<close>

lemma scanner_step_BeginValue:
  "step s = BeginValue \<Longrightarrow> scanner_step s c = stateBeginValue s c"
  "step s = BeginValueOrEmpty \<Longrightarrow> scanner_step s c = stateBeginValueOrEmpty s c"
  "step s = EndValue \<Longrightarrow> scanner_step s c = stateEndValue s c"
  "step s = EndTop \<Longrightarrow> scanner_step s c = stateEndTop s c"
  by (simp_all add: scanner_step_def)

lemma scanner_step_InString:
  "step s = InString \<Longrightarrow> scanner_step s c =
     (if c = CHR 0x22 then s\<lparr>step := EndValue\<rparr>
      else if c = CHR 0x5C then s\<lparr>step := InStringEsc\<rparr>
      else if (of_char c :: nat) < 0x20 then scan_error s
      else s)"
  "step s = InStringEsc \<Longrightarrow> scanner_step s c =
     (if c \<in> {CHR ''b'', CHR ''f'', CHR ''n'', CHR ''r'', CHR ''t'', CHR 0x5C, CHR ''/'', CHR 0x22}
      then s\<lparr>step := InString\<rparr>
      else if c = CHR ''u'' then s\<lparr>step := InStringEscU\<rparr>
      else scan_error s)"
  "step s = InStringEscU \<Longrightarrow> scanner_step s c =
     (if isHexDigit c then s\<lparr>step := InStringEscU1\<rparr> else scan_error s)"
  "step s = InStringEscU1 \<Longrightarrow> scanner_step s c =
     (if isHexDigit c then s\<lparr>step := InStringEscU12\<rparr> else scan_error s)"
  "step s = InStringEscU12 \<Longrightarrow> scanner_step s c =
     (if isHexDigit c then s\<lparr>step := InStringEscU123\<rparr> else scan_error s)"
  "step s = InStringEscU123 \<Longrightarrow> scanner_step s c =
     (if isHexDigit c then s\<lparr>step := InString\<rparr> else scan_error s)"
  by (simp_all add: scanner_step_def)

lemmas step_defs = decode_step_def beginsValue_def scanner_step_BeginValue scanner_step_InString
  stateBeginValue_def stateBeginValueOrEmpty_def stateEndValue_def stateEndTop_def
  pushParseState_def popParseState_def maxNestingDepth_def scan_error_def Let_def

lemma step_space_init:
  "json_isSpace c \<Longrightarrow> decode_step decode_init c = decode_init"
  by (simp add: step_defs decode_init_def scanner_reset_def)

lemma run_spaces_init:
  "list_all json_isSpace ws \<Longrightarrow> foldl decode_step decode_init ws = decode_init"
  by (induction ws) (simp_all add: step_space_init)

lemma step_space_inArray:
  assumes "json_isSpace c"
  shows "decode_step (inArray BeginValue strs None) c = inArray BeginValue strs None"
    and "decode_step (inArray BeginValueOrEmpty strs None) c = inArray BeginValueOrEmpty strs None"
    and "decode_step (inArray EndValue strs None) c = inArray EndValue strs None"
  using assms by (simp_all add: step_defs inArray_def)

lemma run_spaces_inArray:
  assumes "list_all json_isSpace ws"
  shows "foldl decode_step (inArray BeginValue strs None) ws = inArray BeginValue strs None"
    and "foldl decode_step (inArray BeginValueOrEmpty strs None) ws = inArray BeginValueOrEmpty strs None"
    and "foldl decode_step (inArray EndValue strs None) ws = inArray EndValue strs None"
  using assms by (induction ws) (simp_all add: step_space_inArray)

lemma step_space_done:
  "json_isSpace c \<Longrightarrow> decode_step (doneArray strs) c = doneArray strs"
  by (simp add: step_defs doneArray_def)

lemma run_spaces_done:
  "list_all json_isSpace ws \<Longrightarrow> foldl decode_step (doneArray strs) ws = doneArray strs"
  by (induction ws) (simp_all add: step_space_done)

lemma not_space [simp]:
  "\<not> json_isSpace (CHR ''['')" "\<not> json_isSpace (CHR '']'')" "\<not> json_isSpace (CHR 0x22)"
  "\<not> json_isSpace (CHR '','')"
  by (simp_all add: json_isSpace_def)

lemma step_open_bracket:
  "decode_step decode_init (CHR ''['') = inArray BeginValueOrEmpty [] None"
  by (simp add: step_defs decode_init_def scanner_reset_def inArray_def)

lemma step_open_quote:
  "decode_step (inArray BeginValue strs None) (CHR 0x22) = inArray InString strs (Some [])"
  "decode_step (inArray BeginValueOrEmpty strs None) (CHR 0x22) = inArray InString strs (Some [])"
  by (simp_all add: step_defs inArray_def)

lemma step_close_quote:
  "unquoteBytes body = Some t \<Longrightarrow>
     decode_step (inArray InString strs (Some body)) (CHR 0x22) = inArray EndValue (strs @ [t]) None"
  by (simp add: step_defs inArray_def)

lemma step_comma:
  "decode_step (inArray EndValue strs None) (CHR '','') = inArray BeginValue strs None"
  by (simp add: step_defs inArray_def)

lemma step_close_bracket:
  "decode_step (inArray BeginValueOrEmpty strs None) (CHR '']'') = doneArray strs"
  "decode_step (inArray EndValue strs None) (CHR '']'') = doneArray strs"
  by (simp_all add: step_defs inArray_def doneArray_def)

lemma step_in_string:
  "c \<noteq> CHR 0x22 \<Longrightarrow> c \<noteq> CHR 0x5C \<Longrightarrow> (32::nat) \<le> of_char c \<Longrightarrow>
     decode_step (inArray InString strs (Some body)) c = inArray InString strs (Some (body @ [c]))"
  by (simp add: step_defs inArray_def)

lemma step_backslash:
  "decode_step (inArray InString strs (Some body)) (CHR 0x5C)
     = inArray InStringEsc strs (Some (body @ [CHR 0x5C]))"
  by (simp add: step_defs inArray_def)

lemma simpleEscapes_dom:
  "map_of simpleEscapes e \<noteq> None \<longleftrightarrow>
     e \<in> {CHR ''b'', CHR ''f'', CHR ''n'', CHR ''r'', CHR ''t'', CHR 0x5C, CHR ''/'', CHR 0x22}"
  by (auto simp: simpleEscapes_def)

lemma step_escape:
  assumes "map_of simpleEscapes e \<noteq> None"
  shows "decode_step (inArray InStringEsc strs (Some body)) e = inArray InString strs (Some (body @ [e]))"
proof -
  from assms have e: "e \<in> {CHR ''b'', CHR ''f'', CHR ''n'', CHR ''r'', CHR ''t'', CHR 0x5C, CHR ''/'', CHR 0x22}"
    by (simp only: simpleEscapes_dom)
  have "scanner_step \<lparr>step = InStringEsc, parseState = [ParseArrayValue], scanErr = False, endTop = False\<rparr> e
      = \<lparr>step = InString, parseState = [ParseArrayValue], scanErr = False, endTop = False\<rparr>"
    by (subst scanner_step_InString(2)) (simp_all only: e if_True scanner.simps scanner.update_convs)
  then show ?thesis by (simp add: decode_step_def inArray_def Let_def)
qed

lemma step_u:
  "decode_step (inArray InStringEsc strs (Some body)) (CHR ''u'')
     = inArray InStringEscU strs (Some (body @ [CHR ''u'']))"
  by (simp add: step_defs inArray_def)

lemma step_hex:
  assumes "isHexDigit c"
  shows "decode_step (inArray InStringEscU strs (Some body)) c = inArray InStringEscU1 strs (Some (body @ [c]))"
    and "decode_step (inArray InStringEscU1 strs (Some body)) c = inArray InStringEscU12 strs (Some (body @ [c]))"
    and "decode_step (inArray InStringEscU12 strs (Some body)) c = inArray InStringEscU123 strs (Some (body @ [c]))"
    and "decode_step (inArray InStringEscU123 strs (Some body)) c = inArray InString strs (Some (body @ [c]))"
  using assms by (simp_all add: step_defs inArray_def)


lemma hexDigitValue_isHexDigit: "hexDigitValue c = Some v \<Longrightarrow> isHexDigit c"
  by (auto simp: hexDigitValue_def isHexDigit_def Let_def split: if_splits)

lemma hexDigits_isHexDigit: "hexDigits r hs = Some r' \<Longrightarrow> list_all isHexDigit hs"
  by (induction hs arbitrary: r) (auto split: option.splits dest: hexDigitValue_isHexDigit)

lemma run_plain_bytes:
  "\<forall>c\<in>set bs. c \<noteq> CHR 0x22 \<and> c \<noteq> CHR 0x5C \<and> (32::nat) \<le> of_char c \<Longrightarrow>
     foldl decode_step (inArray InString strs (Some body)) bs = inArray InString strs (Some (body @ bs))"
  by (induction bs arbitrary: body) (simp_all add: step_in_string)

lemma length_four: "length hs = 4 \<Longrightarrow> \<exists>a b c d. hs = [a, b, c, d]"
  by (simp add: numeral_eq_Suc length_Suc_conv) blast

lemma run_unicode_escape:
  assumes "length hs = 4" and "list_all isHexDigit hs"
  shows "foldl decode_step (inArray InString strs (Some body)) (CHR 0x5C # CHR ''u'' # hs)
           = inArray InString strs (Some (body @ CHR 0x5C # CHR ''u'' # hs))"
proof -
  from assms(1) obtain a b c d where hs: "hs = [a, b, c, d]"
    using length_four by blast
  with assms(2) show ?thesis by (simp add: step_backslash step_u step_hex)
qed

lemma run_item:
  assumes "wf_item it"
  shows "foldl decode_step (inArray InString strs (Some body)) (render_item it)
           = inArray InString strs (Some (body @ render_item it))"
proof (cases it)
  case (Plain bs)
  with assms have wf: "wf_item (Plain bs)" by simp
  have "\<forall>c\<in>set bs. c \<noteq> CHR 0x22 \<and> c \<noteq> CHR 0x5C \<and> (32::nat) \<le> of_char c"
    using wf
  proof (cases rule: wf_Plain_cases)
    case (ascii c)
    then show ?thesis by simp
  next
    case (multi r)
    have "(128::nat) \<le> of_char c \<Longrightarrow> c \<noteq> CHR 0x22 \<and> c \<noteq> CHR 0x5C \<and> (32::nat) \<le> of_char c" for c
      by auto
    with multi(4) show ?thesis by blast
  qed
  with Plain show ?thesis by (simp add: run_plain_bytes)
next
  case (Escape e)
  with assms show ?thesis by (simp add: step_backslash step_escape)
next
  case (Unicode hs)
  with assms have "length hs = 4" "list_all isHexDigit hs"
    by (auto split: option.splits dest: hexDigits_isHexDigit)
  with Unicode show ?thesis using run_unicode_escape [of hs strs body] by (simp del: foldl_Cons)
next
  case (Pair hi lo)
  with assms have h: "length hi = 4" "list_all isHexDigit hi" "length lo = 4" "list_all isHexDigit lo"
    by (auto split: option.splits dest: hexDigits_isHexDigit)
  have "foldl decode_step (inArray InString strs (Some body))
          ((CHR 0x5C # CHR ''u'' # hi) @ (CHR 0x5C # CHR ''u'' # lo))
        = inArray InString strs (Some ((body @ CHR 0x5C # CHR ''u'' # hi) @ CHR 0x5C # CHR ''u'' # lo))"
    unfolding foldl_append run_unicode_escape [OF h(1,2)] run_unicode_escape [OF h(3,4)] ..
  with Pair show ?thesis by simp
qed

lemma run_items:
  "list_all wf_item items \<Longrightarrow>
     foldl decode_step (inArray InString strs (Some body)) (concat (map render_item items))
       = inArray InString strs (Some (body @ concat (map render_item items)))"
  by (induction items arbitrary: body) (simp_all add: run_item)

lemma run_literal:
  assumes "list_all wf_item items" and "st = BeginValue \<or> st = BeginValueOrEmpty"
  shows "foldl decode_step (inArray st strs None) (literal_text items)
           = inArray EndValue (strs @ [literal_value items]) None"
proof -
  let ?body = "concat (map render_item items)"
  have "foldl decode_step (inArray st strs None) (literal_text items)
          = decode_step (foldl decode_step (decode_step (inArray st strs None) (CHR 0x22)) ?body)
              (CHR 0x22)"
    by (simp add: literal_text_def)
  also have "decode_step (inArray st strs None) (CHR 0x22) = inArray InString strs (Some [])"
    using assms(2) by (elim disjE) (simp_all add: step_open_quote)
  also have "foldl decode_step (inArray InString strs (Some [])) ?body
          = inArray InString strs (Some ([] @ ?body))"
    using assms(1) by (rule run_items)
  also have "decode_step (inArray InString strs (Some ([] @ ?body))) (CHR 0x22)
          = inArray EndValue (strs @ [literal_value items]) None"
    using assms(1) by (intro step_close_quote) (simp add: unquoteBytes_items)
  finally show ?thesis .
qed

lemma run_element:
  assumes "wf_element e" and "st = BeginValue \<or> st = BeginValueOrEmpty"
  shows "foldl decode_step (inArray st strs None) (element_text e)
           = inArray EndValue (strs @ array_value [e]) None"
proof -
  obtain w1 items w2 where e: "e = (w1, items, w2)" by (cases e)
  with assms(1) have wf: "list_all json_isSpace w1" "list_all wf_item items" "list_all json_isSpace w2"
    by simp_all
  have 1: "foldl decode_step (inArray st strs None) w1 = inArray st strs None"
    using wf(1) assms(2) by (elim disjE) (simp_all add: run_spaces_inArray)
  have 2: "foldl decode_step (inArray st strs None) (literal_text items)
             = inArray EndValue (strs @ [literal_value items]) None"
    using wf(2) assms(2) by (rule run_literal)
  have 3: "foldl decode_step (inArray EndValue (strs @ [literal_value items]) None) w2
             = inArray EndValue (strs @ [literal_value items]) None"
    using wf(3) by (rule run_spaces_inArray)
  show ?thesis by (simp add: e 1 2 3 array_value_def)
qed

lemma run_elements:
  assumes "list_all wf_element els" and "els \<noteq> []" and "st = BeginValue \<or> st = BeginValueOrEmpty"
  shows "foldl decode_step (inArray st strs None) (elements_text els)
           = inArray EndValue (strs @ array_value els) None"
  using assms
proof (induction els arbitrary: st strs rule: elements_text.induct)
  case 1
  then show ?case by simp
next
  case (2 e)
  then show ?case using run_element [of e st strs] by simp
next
  case (3 e e' es)
  have "foldl decode_step (inArray st strs None) (element_text e)
          = inArray EndValue (strs @ array_value [e]) None"
    using 3(2,4) by (intro run_element) simp_all
  moreover have "foldl decode_step (inArray BeginValue (strs @ array_value [e]) None)
                   (elements_text (e' # es))
          = inArray EndValue ((strs @ array_value [e]) @ array_value (e' # es)) None"
    using 3(2) by (intro 3(1)) simp_all
  ultimately show ?case by (simp add: step_comma array_value_def)
qed

lemma run_array_text:
  assumes "list_all json_isSpace w0" "list_all json_isSpace wi" "list_all json_isSpace w1"
    and "list_all wf_element els"
  shows "foldl decode_step decode_init (array_text w0 wi els w1) = doneArray (array_value els)"
proof -
  let ?A = "w0 @ [CHR ''['']"
  let ?B = "(if els = [] then wi else elements_text els) @ [CHR '']'']"
  have a: "foldl decode_step decode_init ?A = inArray BeginValueOrEmpty [] None"
    using assms(1) by (simp add: run_spaces_init step_open_bracket)
  have b: "foldl decode_step (inArray BeginValueOrEmpty [] None) ?B = doneArray (array_value els)"
  proof (cases "els = []")
    case True
    have "foldl decode_step (inArray BeginValueOrEmpty [] None) wi = inArray BeginValueOrEmpty [] None"
      using assms(2) by (rule run_spaces_inArray)
    with True show ?thesis by (simp add: step_close_bracket array_value_def)
  next
    case False
    have "foldl decode_step (inArray BeginValueOrEmpty [] None) (elements_text els)
            = inArray EndValue ([] @ array_value els) None"
      using assms(4) False by (intro run_elements) auto
    with False show ?thesis by (simp add: step_close_bracket)
  qed
  have "array_text w0 wi els w1 = ?A @ ?B @ w1"
    by (simp add: array_text_def)
  then have "foldl decode_step decode_init (array_text w0 wi els w1)
          = foldl decode_step (foldl decode_step (foldl decode_step decode_init ?A) ?B) w1"
    by (simp only: foldl_append)
  also have "\<dots> = foldl decode_step (doneArray (array_value els)) w1"
    by (simp only: a b)
  also have "\<dots> = doneArray (array_value els)"
    using assms(3) by (rule run_spaces_done)
  finally show ?thesis .
qed

lemma scan_foldl: "scan (foldl decode_step d bs) = foldl scanner_step (scan d) bs"
proof (induction bs arbitrary: d)
  case Nil
  then show ?case by simp
next
  case (Cons c bs)
  have "scan (decode_step d c) = scanner_step (scan d) c"
    by (simp add: decode_step_def Let_def split: option.splits)
  with Cons show ?case by simp
qed

lemma json_Unmarshal_array_text:
  assumes "list_all json_isSpace w0" "list_all json_isSpace wi" "list_all json_isSpace w1"
    and "list_all wf_element els"
  shows "json_Unmarshal (array_text w0 wi els w1) v = Returned None (Slice (array_value els))"
proof -
  let ?text = "array_text w0 wi els w1"
  have run: "foldl decode_step decode_init ?text = doneArray (array_value els)"
    using assms by (rule run_array_text)
  have "foldl scanner_step scanner_reset ?text = scan (foldl decode_step decode_init ?text)"
    by (simp add: scan_foldl decode_init_def)
  then have "foldl scanner_step scanner_reset ?text = scan (doneArray (array_value els))"
    by (simp only: run)
  then have valid: "checkValid ?text"
    by (simp add: checkValid_def doneArray_def scanner_eof_def)
  have "json_Unmarshal ?text v =
      (let d = doneArray (array_value els) in
        if phasePanic d then Panicked
        else case top d of
            Some TopArray \<Rightarrow>
              Returned (if savedError d then Some UnmarshalTypeError else None) (Slice (out d))
          | Some TopNull \<Rightarrow> Returned None NilSlice
          | _ \<Rightarrow> Returned (Some UnmarshalTypeError) v)"
    unfolding json_Unmarshal_def using valid by (simp only: run if_False not_True_eq_False)
  then show ?thesis by (simp add: doneArray_def)
qed

end
